theory Spec2Isabelle
  imports Complex_Main "HOL-Library.Sublist"
begin

section \<open>Effects, responses and the rate limiter\<close>

text \<open>
  The bot talks to GitHub and to a Discord channel. Both are modelled by a log of events, in the
  order the code performs them: a GET request for a URL, a call of the injected
  \<open>error_channel(title, description)\<close> callback, and a call of \<open>asyncio.sleep\<close>.
  One description is an f-string over a float, \<open>f"Try again after {sleep_time} seconds"\<close>; its
  rendering is kept symbolic as \<open>TryAgainAfter sleep_time\<close>. Diagnostics written with \<open>print\<close>
  are not part of the model.
\<close>

datatype descr = Text string | TryAgainAfter real

datatype event = Get string | Report string descr | Sleep real

text \<open>
  The two response headers the code reads, after \<open>int(...)\<close>:
  \<open>X-RateLimit-Remaining\<close> and \<open>X-RateLimit-Reset\<close> (epoch seconds).
\<close>

record headers =
  X_RateLimit_Remaining :: int
  X_RateLimit_Reset :: int

text \<open>
  \<open>session.get(url, raise_for_status=True)\<close> either raises \<open>TimeoutError\<close> (which the code
  catches), raises something else (an HTTP status of 400 or more, a connection error; the code
  does not catch it), or answers with a body and headers.
\<close>

datatype 'a reply = TimeoutError | ClientError | Response 'a headers

text \<open>
  \<open>github_ratelimiter(headers, error_channel)\<close>. The clock reading \<open>datetime.now()\<close> is the
  argument \<open>now\<close>, in seconds since the epoch; times are real numbers. The result is the
  returned number (\<open>sleep_time\<close> or \<open>0\<close>) with the events performed. The caller tests the
  returned number for truth: a non-zero float means "give up".
\<close>

definition github_ratelimiter :: "headers \<Rightarrow> real \<Rightarrow> real \<times> event list" where
  "github_ratelimiter hdrs now =
     (if X_RateLimit_Remaining hdrs = 1 then
        (let epoch_sec = X_RateLimit_Reset hdrs;
             delay = real_of_int epoch_sec - now;
             sleep_time = delay + 1
         in if sleep_time > 61
            then (sleep_time, [Report ''API Request timed out'' (TryAgainAfter sleep_time)])
            else (0, [Sleep sleep_time]))
      else (0, []))"

definition truthy :: "real \<Rightarrow> bool" where
  "truthy x = (x \<noteq> 0)"

fun is_Sleep :: "event \<Rightarrow> bool" where
  "is_Sleep (Sleep t) = True"
| "is_Sleep e = False"

fun is_Report :: "event \<Rightarrow> bool" where
  "is_Report (Report t d) = True"
| "is_Report e = False"

fun is_Get :: "event \<Rightarrow> bool" where
  "is_Get (Get u) = True"
| "is_Get e = False"

section \<open>Input checks\<close>

text \<open>
  \<open>check_number_of_issues\<close> and \<open>check_pull_request\<close>, returning the value with the reports
  made through \<open>error_channel\<close>. The noun is \<open>None\<close> when the command was given without one.
\<close>

definition check_number_of_issues :: "int \<Rightarrow> int \<times> event list" where
  "check_number_of_issues number_of_issues =
     (let (n1, log1) =
            (if number_of_issues < 1
             then (10, [Report ''Woah, there!''
                         (Text ''I can't give you un-natural issues. I'm not a monster!!'')])
             else (number_of_issues, []));
          (n2, log2) =
            (if n1 > 10
             then (10, [Report ''Woah, there!''
                         (Text ''Let's curb that enthusiasm.. just a little'')])
             else (n1, []))
      in (n2, log1 @ log2))"

definition issue_nouns :: "string list" where
  "issue_nouns = [''issue'', ''issues'', ''ISSUE'', ''ISSUES'']"

definition pr_nouns :: "string list" where
  "pr_nouns = [''pr'', ''prs'', ''PR'', ''PRs'', ''PRS'']"

definition check_pull_request :: "string option \<Rightarrow> bool \<times> event list" where
  "check_pull_request noun =
     (if noun \<in> Some ` set issue_nouns then (False, [])
      else if noun \<in> Some ` set pr_nouns then (True, [])
      else (False, [Report '''' (Text ''Insufficient info, defaulting to issues..'')]))"

section \<open>Strings and lists as Python has them\<close>

text \<open>\<open>str(n)\<close> for an integer: decimal digits, a minus sign for a negative number.\<close>

definition digit_char :: "nat \<Rightarrow> char" where
  "digit_char d = ''0123456789'' ! d"

function str_nat :: "nat \<Rightarrow> string" where
  "str_nat n = (if n < 10 then [digit_char n] else str_nat (n div 10) @ [digit_char (n mod 10)])"
  by pat_completeness auto
termination
  by (relation "measure id") auto

declare str_nat.simps [simp del]

definition str_int :: "int \<Rightarrow> string" where
  "str_int i = (if i < 0 then CHR ''-'' # str_nat (nat (- i)) else str_nat (nat i))"

text \<open>\<open>sep.join(parts)\<close>.\<close>

fun join :: "string \<Rightarrow> string list \<Rightarrow> string" where
  "join sep [] = []"
| "join sep [x] = x"
| "join sep (x # y # ys) = x @ sep @ join sep (y # ys)"

text \<open>
  The slice \<open>xs[:n]\<close>: the first \<open>n\<close> elements (all of them when there are fewer), and for a
  negative \<open>n\<close> all but the last \<open>-n\<close> elements.
\<close>

definition slice_to :: "'a list \<Rightarrow> int \<Rightarrow> 'a list" where
  "slice_to xs n = (if n < 0 then take (nat (int (length xs) + n)) xs else take (nat n) xs)"

datatype py_error = IndexError | ClientResponseError | TypeError

text \<open>
  \<open>random.choices(population, k=k)\<close> of the standard library, without weights:
  \<open>[population[floor(random() * n)] for i in _repeat(None, k)]\<close> with \<open>n = len(population)\<close>.
  The generator is the argument \<open>random\<close>: its \<open>i\<close>-th value, which the library takes from
  the interval from 0 (included) to 1 (excluded). No element is drawn for \<open>k \<le> 0\<close>; drawing
  from an empty population raises \<open>IndexError\<close>.
\<close>

definition choices :: "(nat \<Rightarrow> real) \<Rightarrow> 'a list \<Rightarrow> int \<Rightarrow> py_error + 'a list" where
  "choices random population k =
     (let n = real (length population)
      in if k \<le> 0 then Inr []
         else if population = [] then Inl IndexError
         else Inr (map (\<lambda>i. population ! nat \<lfloor>random i * n\<rfloor>) [0..<nat k]))"

section \<open>Selection strategies\<close>

definition choose_rand :: "(nat \<Rightarrow> real) \<Rightarrow> 'a list \<Rightarrow> int \<Rightarrow> py_error + ('a list \<times> string)" where
  "choose_rand random issues number_of_issues =
     (case choices random issues number_of_issues of
        Inl e \<Rightarrow> Inl e
      | Inr chosen_issues \<Rightarrow>
          Inr (chosen_issues,
               str_int number_of_issues @ '' random picks out of '' @
               str_int (int (length issues)) @ '':''))"

definition choose_feedback :: "'a list \<Rightarrow> int \<Rightarrow> bool \<Rightarrow> 'a list \<times> string" where
  "choose_feedback issues number_of_issues pull_request =
     (let chosen_issues = slice_to issues number_of_issues;
          kind = (if pull_request then ''PR(s)'' else ''issue(s)'')
      in (chosen_issues,
          ''Oldest '' @ str_int number_of_issues @ '' '' @ kind @ '' in feedback queue:''))"

text \<open>
  What the search and the detail endpoint return, as far as the code reads it: the five fields
  \<open>beautify_issues\<close> keeps, \<open>issue["pull_request"]["url"]\<close>, and the requested reviewers with
  their logins.
\<close>

record summary =
  title :: string
  body :: string
  html_url :: string
  created_at :: string
  updated_at :: string

record reviewer =
  login :: string

record item = summary +
  pull_request_url :: string
  requested_reviewers :: "reviewer list"

definition beautify_issues :: "'a summary_scheme list \<Rightarrow> summary list" where
  "beautify_issues github_issue_list = map summary.truncate github_issue_list"

definition compose_message :: "summary list \<Rightarrow> string" where
  "compose_message issues =
     join [CHR 0x0A]
       (map (\<lambda>(i, issue). ''**'' @ str_nat (i + 1) @ ''.** '' @ title issue @
                           [CHR 0x0A] @ ''  '' @ html_url issue)
            (zip [0..<length issues] issues))"

text \<open>
  The end of \<open>command_function\<close>: the reply is filled from the selection, and the footer is set
  when the selection is shorter than the (checked) number asked for.
\<close>

record embed =
  embed_title :: string
  embed_description :: string
  embed_footer :: "string option"

definition fill_reply :: "'a summary_scheme list \<times> string \<Rightarrow> int \<Rightarrow> embed" where
  "fill_reply selection number_of_issues =
     (case selection of (chosen_issues, ttl) \<Rightarrow>
        \<lparr>embed_title = ttl,
         embed_description = compose_message (beautify_issues chosen_issues),
         embed_footer =
           (if int (length chosen_issues) < number_of_issues
            then Some ''There weren't enough...'' else None)\<rparr>)"

section \<open>Asynchronous generators\<close>

text \<open>
  An asynchronous generator is consumed one item at a time. Its behaviour is the sequence of
  what it does when it is resumed again and again: perform an event, yield an item, stop
  (\<open>StopAsyncIteration\<close>), or raise. The consumer decides how far this sequence is run: what
  stands behind the last item it pulled is never performed. The environment is fixed by
  functions (what the server answers to a URL, what the clock reads), so that the sequence is a
  value.
\<close>

datatype 'a gen = Stop | Raise py_error | Do event "'a gen" | Yield 'a "'a gen"

fun do_all :: "event list \<Rightarrow> 'a gen \<Rightarrow> 'a gen" where
  "do_all [] g = g"
| "do_all (e # es) g = Do e (do_all es g)"

text \<open>The items and the events of a generator that is run to its end.\<close>

fun yields :: "'a gen \<Rightarrow> 'a list" where
  "yields Stop = []"
| "yields (Raise e) = []"
| "yields (Do e g) = yields g"
| "yields (Yield x g) = x # yields g"

fun events :: "'a gen \<Rightarrow> event list" where
  "events Stop = []"
| "events (Raise e) = []"
| "events (Do e g) = e # events g"
| "events (Yield x g) = events g"

text \<open>
  The injected \<open>error_channel\<close> is called and its result awaited:
  \<open>await error_channel(title, description)\<close>. \<open>command_function\<close> passes the coroutine function
  that \<open>error_handler(channel)\<close> returns, and \<open>get_issues\<close> defaults to the coroutine function
  \<open>default_error_handler\<close>: the call is reported and execution goes on. The default of
  \<open>get_pr_details\<close> is the plain \<open>lambda title, desc: True\<close>: the call returns \<open>True\<close>, and awaiting
  \<open>True\<close> raises \<open>TypeError\<close>.
\<close>

datatype callback = Coroutine_function | Plain_function

fun await_error_channel :: "callback \<Rightarrow> string \<Rightarrow> descr \<Rightarrow> py_error option \<times> event list" where
  "await_error_channel Coroutine_function ttl description = (None, [Report ttl description])"
| "await_error_channel Plain_function ttl description = (Some TypeError, [Report ttl description])"

text \<open>
  \<open>github_ratelimiter\<close> with the callback as a parameter: an exception of the \<open>await\<close> leaves the
  function before its \<open>return\<close>. With a coroutine function it is \<open>github_ratelimiter\<close> above.
\<close>

definition github_ratelimiter_with ::
  "callback \<Rightarrow> headers \<Rightarrow> real \<Rightarrow> (py_error + real) \<times> event list" where
  "github_ratelimiter_with error_channel hdrs now =
     (if X_RateLimit_Remaining hdrs = 1 then
        (let epoch_sec = X_RateLimit_Reset hdrs;
             delay = real_of_int epoch_sec - now;
             sleep_time = delay + 1
         in if sleep_time > 61
            then (case await_error_channel error_channel ''API Request timed out''
                         (TryAgainAfter sleep_time) of
                    (Some e, evs) \<Rightarrow> (Inl e, evs)
                  | (None, evs) \<Rightarrow> (Inr sleep_time, evs))
            else (Inr 0, [Sleep sleep_time]))
      else (Inr 0, []))"

text \<open>
  \<open>get_pr_details(issues, error_channel)\<close>. \<open>fetch\<close> is what the server answers to a GET of the
  URL; \<open>clock n\<close> is the clock reading when the rate limiter looks at the \<open>n\<close>-th response
  received. After a response the item is yielded first; the rate limiter runs when the
  generator is resumed. An exception raised while the timeout is handled, or inside the rate
  limiter, leaves the generator.
\<close>

fun get_pr_details ::
  "callback \<Rightarrow> (string \<Rightarrow> 'p reply) \<Rightarrow> (nat \<Rightarrow> real) \<Rightarrow> nat \<Rightarrow> 'i item_scheme list \<Rightarrow> 'p gen" where
  "get_pr_details error_channel fetch clock counter [] = Stop"
| "get_pr_details error_channel fetch clock counter (issue # issues) =
     Do (Get (pull_request_url issue))
       (case fetch (pull_request_url issue) of
          TimeoutError \<Rightarrow>
            (case await_error_channel error_channel ''API Request timed out''
                    (Text ''Please check https://www.githubstatus.com/'') of
               (Some e, evs) \<Rightarrow> do_all evs (Raise e)
             | (None, evs) \<Rightarrow> do_all evs Stop)
        | ClientError \<Rightarrow> Raise ClientResponseError
        | Response pr_data hdrs \<Rightarrow>
            Yield pr_data
              (case github_ratelimiter_with error_channel hdrs (clock (counter + 1)) of
                 (Inl e, evs) \<Rightarrow> do_all evs (Raise e)
               | (Inr give_up, evs) \<Rightarrow>
                   do_all evs
                     (if truthy give_up then Stop
                      else get_pr_details error_channel fetch clock (counter + 1) issues)))"

text \<open>
  \<open>pr_with_pending_review(pr_list, user)\<close>: the inner loop over the requested reviewers of one
  PR, then the generator itself.
\<close>

fun for_reviewers :: "'a \<Rightarrow> reviewer list \<Rightarrow> string \<Rightarrow> 'a gen \<Rightarrow> 'a gen" where
  "for_reviewers pr [] user rest = rest"
| "for_reviewers pr (reviewer # reviewers) user rest =
     (if login reviewer = user then Yield pr (for_reviewers pr reviewers user rest)
      else for_reviewers pr reviewers user rest)"

fun pr_with_pending_review :: "'a item_scheme gen \<Rightarrow> string \<Rightarrow> 'a item_scheme gen" where
  "pr_with_pending_review Stop user = Stop"
| "pr_with_pending_review (Raise e) user = Raise e"
| "pr_with_pending_review (Do e pr_list) user = Do e (pr_with_pending_review pr_list user)"
| "pr_with_pending_review (Yield pr pr_list) user =
     for_reviewers pr (requested_reviewers pr) user (pr_with_pending_review pr_list user)"

text \<open>
  \<open>choose_review(issues, number_of_issues, author)\<close>. The \<open>async for\<close> loop appends each item
  it pulls and leaves the loop when the list has \<open>number_of_issues\<close> elements; the trace holds the
  events performed up to that moment. The author is \<open>None\<close> or a string; the empty string is
  false like \<open>None\<close>. \<open>get_pr_details\<close> is called with the issues only, so with its default
  callback.
\<close>

fun collect :: "int \<Rightarrow> 'a list \<Rightarrow> event list \<Rightarrow> 'a gen \<Rightarrow> (py_error + 'a list) \<times> event list" where
  "collect n chosen_issues trace Stop = (Inr chosen_issues, trace)"
| "collect n chosen_issues trace (Raise e) = (Inl e, trace)"
| "collect n chosen_issues trace (Do e g) = collect n chosen_issues (trace @ [e]) g"
| "collect n chosen_issues trace (Yield issue g) =
     (if int (length (chosen_issues @ [issue])) = n then (Inr (chosen_issues @ [issue]), trace)
      else collect n (chosen_issues @ [issue]) trace g)"

fun given :: "string option \<Rightarrow> bool" where
  "given None = False"
| "given (Some a) = (a \<noteq> [])"

definition choose_review ::
  "(string \<Rightarrow> item reply) \<Rightarrow> (nat \<Rightarrow> real) \<Rightarrow> item list \<Rightarrow> int \<Rightarrow> string option \<Rightarrow>
     (py_error + item list \<times> string) \<times> event list" where
  "choose_review fetch clock issues number_of_issues author =
     (let (chosen_issues, trace) =
            (if given author
             then collect number_of_issues [] []
                    (pr_with_pending_review
                       (get_pr_details Plain_function fetch clock 0 issues) (the author))
             else (Inr (slice_to issues number_of_issues), []));
          selection = (if given author then ''for @'' @ the author else ''in review queue'');
          ttl = ''Oldest '' @ str_int number_of_issues @ '' PR(s) '' @ selection @ '':''
      in (case chosen_issues of Inl e \<Rightarrow> Inl e | Inr chosen \<Rightarrow> Inr (chosen, ttl), trace))"

text \<open>
  The words of the specification: an item matches an identity when some entry of its requested
  reviewers has that login; \<open>matching_entries\<close> counts these entries.
\<close>

definition matching_entries :: "'a item_scheme \<Rightarrow> string \<Rightarrow> nat" where
  "matching_entries pr user = length (filter (\<lambda>r. login r = user) (requested_reviewers pr))"

definition awaits :: "string \<Rightarrow> 'a item_scheme \<Rightarrow> bool" where
  "awaits user pr = (user \<in> login ` set (requested_reviewers pr))"

text \<open>
  The words of the specification for the review-queue scan. An issue of the upstream list
  matches when the detail the server returns for it lists the identity. The position of the
  \<open>n\<close>-th matching item counts from 1; it is the length of the list when fewer than \<open>n\<close> items
  match. The detail fetches performed are the GET events of the log.
\<close>

definition matches :: "(string \<Rightarrow> 'a item_scheme reply) \<Rightarrow> string \<Rightarrow> 'i item_scheme \<Rightarrow> bool" where
  "matches fetch user issue =
     (case fetch (pull_request_url issue) of
        Response pr_data hdrs \<Rightarrow> awaits user pr_data
      | _ \<Rightarrow> False)"

fun nth_match_position :: "('a \<Rightarrow> bool) \<Rightarrow> 'a list \<Rightarrow> nat \<Rightarrow> nat" where
  "nth_match_position P [] n = 0"
| "nth_match_position P (x # xs) n =
     (if P x then (if n \<le> 1 then 1 else 1 + nth_match_position P xs (n - 1))
      else 1 + nth_match_position P xs n)"

text \<open>The details the server returns for the issues of a list, in the order of the list.\<close>

definition details :: "(string \<Rightarrow> 'p reply) \<Rightarrow> 'i item_scheme list \<Rightarrow> 'p list" where
  "details fetch issues =
     concat (map (\<lambda>issue. case fetch (pull_request_url issue) of
                              Response pr_data hdrs \<Rightarrow> [pr_data]
                            | _ \<Rightarrow> []) issues)"

definition fetches :: "event list \<Rightarrow> nat" where
  "fetches trace = length (filter is_Get trace)"

section \<open>The search URL\<close>

text \<open>
  \<open>urllib.parse.quote\<close> and \<open>quote_plus\<close> of the standard library, on byte strings (a label is its
  UTF-8 encoding): a byte that is a letter, a digit, one of \<open>_.-~\<close> or listed in \<open>safe\<close> is kept,
  any other byte becomes \<open>%XX\<close> with two upper-case hexadecimal digits; \<open>quote_plus\<close> also
  turns a space into \<open>+\<close>.
\<close>

definition always_safe :: string where
  "always_safe = ''ABCDEFGHIJKLMNOPQRSTUVWXYZabcdefghijklmnopqrstuvwxyz0123456789_.-~''"

definition hex_digit :: "nat \<Rightarrow> char" where
  "hex_digit d = ''0123456789ABCDEF'' ! d"

definition quote_byte :: "string \<Rightarrow> char \<Rightarrow> string" where
  "quote_byte safe c =
     (if c \<in> set always_safe \<or> c \<in> set safe then [c]
      else [CHR ''%'', hex_digit (of_char c div 16), hex_digit (of_char c mod 16)])"

definition quote :: "string \<Rightarrow> string \<Rightarrow> string" where
  "quote s safe = concat (map (quote_byte safe) s)"

definition quote_plus :: "string \<Rightarrow> string \<Rightarrow> string" where
  "quote_plus s safe =
     (if CHR '' '' \<notin> set s then quote s safe
      else map (\<lambda>c. if c = CHR '' '' then CHR ''+'' else c) (quote s (safe @ '' '')))"

text \<open>
  The query of \<open>get_issues\<close>: its arguments, and the URL it builds before the loop. The double
  quote is \<open>CHR 0x22\<close>.
\<close>

record search =
  repository :: string
  closed_arg :: bool
  pull_request_arg :: bool
  include_labels :: "string list"
  exclude_labels :: "string list"
  sort_arg :: string
  ascending_order :: bool

definition gh_encode :: "string \<Rightarrow> string" where
  "gh_encode x = quote_plus x [CHR 0x22]"

definition query_url :: "search \<Rightarrow> string" where
  "query_url q =
     (let closed_str = (if closed_arg q then ''closed'' else ''open'');
          pull_request_str = (if pull_request_arg q then ''pr'' else ''issue'');
          api_url = ''https://api.github.com/search/issues?'';
          excluded_labels =
            map (\<lambda>x. ''-label:'' @ [CHR 0x22] @ gh_encode x @ [CHR 0x22]) (exclude_labels q);
          included_labels =
            map (\<lambda>x. ''label:'' @ [CHR 0x22] @ gh_encode x @ [CHR 0x22]) (include_labels q);
          issue = [''is:'' @ pull_request_str];
          repo = [''repo:'' @ repository q];
          status = [''is:'' @ closed_str];
          query = [issue, repo, status, excluded_labels, included_labels];
          query_string = ''q='' @ join ''+'' (concat query);
          sort_string = ''sort='' @ sort_arg q;
          order_string = ''order='' @ (if ascending_order q then ''asc'' else ''desc'')
      in api_url @ join ''&'' [query_string, sort_string, order_string])"

definition search_url :: "string \<Rightarrow> int \<Rightarrow> string" where
  "search_url url page = url @ ''&page='' @ str_int page @ ''&per_page=100''"

text \<open>
  The reading side, in the words of the specification: the server decodes the query with the
  inverse of \<open>quote_plus\<close> (\<open>+\<close> is a space, \<open>%XX\<close> is a byte), and the search syntax takes the
  text between a pair of double quotes as the label.
\<close>

definition hex_value :: "char \<Rightarrow> nat option" where
  "hex_value c =
     (if c \<in> set ''0123456789'' then Some (of_char c - 48)
      else if c \<in> set ''ABCDEF'' then Some (of_char c - 55)
      else if c \<in> set ''abcdef'' then Some (of_char c - 87)
      else None)"

fun unquote :: "string \<Rightarrow> string" where
  "unquote [] = []"
| "unquote (c # cs) =
     (if c = CHR ''%'' then
        (case cs of
           a # b # rest \<Rightarrow>
             (case (hex_value a, hex_value b) of
                (Some h, Some l) \<Rightarrow> char_of (16 * h + l) # unquote rest
              | _ \<Rightarrow> c # unquote cs)
         | _ \<Rightarrow> c # unquote cs)
      else c # unquote cs)"

definition unquote_plus :: "string \<Rightarrow> string" where
  "unquote_plus s = unquote (map (\<lambda>c. if c = CHR ''+'' then CHR '' '' else c) s)"

definition quoted_text :: "string \<Rightarrow> string" where
  "quoted_text s = takeWhile (\<lambda>c. c \<noteq> CHR 0x22) (tl (dropWhile (\<lambda>c. c \<noteq> CHR 0x22) s))"

section \<open>The paged fetcher\<close>

text \<open>
  \<open>get_issues\<close> is an asynchronous generator that \<open>command_function\<close> drains into a list. Its
  loop is modelled run to its end: the result is the list of the items yielded, in order, the
  events performed, and the way the loop was left (the count test, the rate limiter's give-up,
  the caught timeout, or an exception that is not caught); it is \<open>None\<close> when the loop never
  ends. \<open>api p\<close> is what the server answers to the request for page \<open>p\<close> of the query, and
  \<open>clock p\<close> the clock reading when the rate limiter looks at that answer.
\<close>

record 'a page =
  total_count :: int
  items :: "'a list"

datatype ending = Received | GaveUp | TimedOut | Failed

partial_function (option) get_issues_loop ::
  "(nat \<Rightarrow> 'a page reply) \<Rightarrow> (nat \<Rightarrow> real) \<Rightarrow> string \<Rightarrow> nat \<Rightarrow> int \<Rightarrow> 'a list \<Rightarrow> event list \<Rightarrow>
     ('a list \<times> event list \<times> ending) option" where
  "get_issues_loop api clock url page_no data_count yielded trace =
     (case api page_no of
        TimeoutError \<Rightarrow>
          Some (yielded,
                trace @ [Get (search_url url (int page_no)),
                         Report ''API Request timed out''
                           (Text ''Please check https://www.githubstatus.com/'')],
                TimedOut)
      | ClientError \<Rightarrow> Some (yielded, trace @ [Get (search_url url (int page_no))], Failed)
      | Response data hdrs \<Rightarrow>
          (case github_ratelimiter hdrs (clock page_no) of
             (give_up, evs) \<Rightarrow>
               if truthy give_up
               then Some (yielded @ items data,
                          trace @ [Get (search_url url (int page_no))] @ evs, GaveUp)
               else if data_count + int (length (items data)) = total_count data
               then Some (yielded @ items data,
                          trace @ [Get (search_url url (int page_no))] @ evs, Received)
               else get_issues_loop api clock url (page_no + 1)
                      (data_count + int (length (items data))) (yielded @ items data)
                      (trace @ [Get (search_url url (int page_no))] @ evs)))"

definition get_issues ::
  "search \<Rightarrow> (nat \<Rightarrow> 'a page reply) \<Rightarrow> (nat \<Rightarrow> real) \<Rightarrow> ('a list \<times> event list \<times> ending) option" where
  "get_issues q api clock = get_issues_loop api clock (query_url q) 1 0 [] []"

text \<open>
  The words of the specification: for a valid query the server holds one list of results; it
  answers the request for a page with that page of the list, 100 items to a page, and reports
  the length of the list as the total count, or the request times out.
\<close>

definition serves :: "'a list \<Rightarrow> (nat \<Rightarrow> 'a page reply) \<Rightarrow> bool" where
  "serves results api =
     (\<forall>p. case api p of
             TimeoutError \<Rightarrow> True
           | ClientError \<Rightarrow> False
           | Response data hdrs \<Rightarrow>
               total_count data = int (length results) \<and>
               items data = take 100 (drop ((p - 1) * 100) results))"

text \<open>
  What a page request meets: the server answers and the rate limiter lets the loop go on, or
  the server answers and the rate limiter gives up. The pages the loop needs are the first one
  and every page that starts inside the result list.
\<close>

definition answered_calmly :: "(nat \<Rightarrow> 'a page reply) \<Rightarrow> (nat \<Rightarrow> real) \<Rightarrow> nat \<Rightarrow> bool" where
  "answered_calmly api clock k =
     (case api k of
        Response data hdrs \<Rightarrow> \<not> truthy (fst (github_ratelimiter hdrs (clock k)))
      | _ \<Rightarrow> False)"

definition gives_up_at :: "(nat \<Rightarrow> 'a page reply) \<Rightarrow> (nat \<Rightarrow> real) \<Rightarrow> nat \<Rightarrow> bool" where
  "gives_up_at api clock k =
     (case api k of
        Response data hdrs \<Rightarrow> truthy (fst (github_ratelimiter hdrs (clock k)))
      | _ \<Rightarrow> False)"

definition needed_page :: "'a list \<Rightarrow> nat \<Rightarrow> bool" where
  "needed_page results k = (1 \<le> k \<and> (k = 1 \<or> (k - 1) * 100 < length results))"

section \<open>Properties of the rate limiter\<close>

text \<open>
  C2. With a remaining quota of exactly 1 the limiter computes (reset - now) + 1; above 61 it
  reports and returns that (non-zero) number without sleeping, otherwise it calls the sleep with
  the computed delay and returns 0; with any other remaining quota it returns 0 at once, with no
  event. A reset five seconds ahead gives a sleep of 6 and 0; a reset 120 seconds ahead gives a
  report and the non-zero 121, with no sleep.
\<close>

theorem github_ratelimiter_decision:
  "(X_RateLimit_Remaining h = 1 \<and> real_of_int (X_RateLimit_Reset h) - now + 1 > 61 \<longrightarrow>
      truthy (fst (github_ratelimiter h now)) \<and>
      fst (github_ratelimiter h now) = real_of_int (X_RateLimit_Reset h) - now + 1 \<and>
      snd (github_ratelimiter h now) =
        [Report ''API Request timed out''
           (TryAgainAfter (real_of_int (X_RateLimit_Reset h) - now + 1))] \<and>
      filter is_Sleep (snd (github_ratelimiter h now)) = []) \<and>
   (X_RateLimit_Remaining h = 1 \<and> real_of_int (X_RateLimit_Reset h) - now + 1 \<le> 61 \<longrightarrow>
      \<not> truthy (fst (github_ratelimiter h now)) \<and>
      snd (github_ratelimiter h now) = [Sleep (real_of_int (X_RateLimit_Reset h) - now + 1)]) \<and>
   (X_RateLimit_Remaining h \<noteq> 1 \<longrightarrow>
      \<not> truthy (fst (github_ratelimiter h now)) \<and> snd (github_ratelimiter h now) = []) \<and>
   (X_RateLimit_Remaining h = 1 \<and> real_of_int (X_RateLimit_Reset h) = now + 5 \<longrightarrow>
      github_ratelimiter h now = (0, [Sleep 6])) \<and>
   (X_RateLimit_Remaining h = 1 \<and> real_of_int (X_RateLimit_Reset h) = now + 120 \<longrightarrow>
      truthy (fst (github_ratelimiter h now)) \<and>
      snd (github_ratelimiter h now) = [Report ''API Request timed out'' (TryAgainAfter 121)])"
  by (simp add: github_ratelimiter_def truthy_def Let_def)

theorem github_ratelimiter_decision_witness:
  "github_ratelimiter \<lparr>X_RateLimit_Remaining = 1, X_RateLimit_Reset = 1005\<rparr> 1000 = (0, [Sleep 6]) \<and>
   truthy (fst (github_ratelimiter \<lparr>X_RateLimit_Remaining = 1, X_RateLimit_Reset = 1120\<rparr> 1000)) \<and>
   snd (github_ratelimiter \<lparr>X_RateLimit_Remaining = 1, X_RateLimit_Reset = 1120\<rparr> 1000) =
     [Report ''API Request timed out'' (TryAgainAfter 121)] \<and>
   snd (github_ratelimiter \<lparr>X_RateLimit_Remaining = 1, X_RateLimit_Reset = 1030\<rparr> (2001 / 2)) =
     [Sleep (61 / 2)] \<and>
   snd (github_ratelimiter \<lparr>X_RateLimit_Remaining = 7, X_RateLimit_Reset = 1120\<rparr> 1000) = []"
  using github_ratelimiter_decision
          [of "\<lparr>X_RateLimit_Remaining = 1, X_RateLimit_Reset = 1005\<rparr>" 1000]
        github_ratelimiter_decision
          [of "\<lparr>X_RateLimit_Remaining = 1, X_RateLimit_Reset = 1120\<rparr>" 1000]
        github_ratelimiter_decision
          [of "\<lparr>X_RateLimit_Remaining = 1, X_RateLimit_Reset = 1030\<rparr>" "2001 / 2"]
        github_ratelimiter_decision
          [of "\<lparr>X_RateLimit_Remaining = 7, X_RateLimit_Reset = 1120\<rparr>" 1000]
  by (simp add: truthy_def)

section \<open>Properties of the input checks\<close>

text \<open>
  C8. A count outside 1..10 is replaced by 10 with exactly one report; a count inside is returned
  as it is with no report; a noun that is neither an issue keyword nor a PR keyword (or no noun)
  gives one report and False. Both functions always return a value.
\<close>

theorem malformed_input_defaults:
  "((n < 1 \<or> 10 < n) \<longrightarrow>
      fst (check_number_of_issues n) = 10 \<and>
      length (snd (check_number_of_issues n)) = 1 \<and>
      list_all is_Report (snd (check_number_of_issues n))) \<and>
   ((1 \<le> n \<and> n \<le> 10) \<longrightarrow> check_number_of_issues n = (n, [])) \<and>
   ((noun \<notin> Some ` set issue_nouns \<and> noun \<notin> Some ` set pr_nouns) \<longrightarrow>
      check_pull_request noun =
        (False, [Report '''' (Text ''Insufficient info, defaulting to issues..'')]))"
  by (simp add: check_number_of_issues_def check_pull_request_def)

theorem malformed_input_defaults_witness:
  "check_number_of_issues 0 =
     (10, [Report ''Woah, there!''
             (Text ''I can't give you un-natural issues. I'm not a monster!!'')]) \<and>
   check_number_of_issues 11 =
     (10, [Report ''Woah, there!'' (Text ''Let's curb that enthusiasm.. just a little'')]) \<and>
   check_number_of_issues 7 = (7, []) \<and>
   check_pull_request (Some ''bug'') =
     (False, [Report '''' (Text ''Insufficient info, defaulting to issues..'')]) \<and>
   check_pull_request None =
     (False, [Report '''' (Text ''Insufficient info, defaulting to issues..'')])"
proof -
  have a: "check_number_of_issues 0 =
     (10, [Report ''Woah, there!''
             (Text ''I can't give you un-natural issues. I'm not a monster!!'')])"
    by (simp add: check_number_of_issues_def)
  have b: "check_number_of_issues 11 =
     (10, [Report ''Woah, there!'' (Text ''Let's curb that enthusiasm.. just a little'')])"
    by (simp add: check_number_of_issues_def)
  show ?thesis
    using a b malformed_input_defaults [of 7 "Some ''bug''"] malformed_input_defaults [of 0 None]
      malformed_input_defaults [of 11 None]
    by (simp add: issue_nouns_def pr_nouns_def)
qed

section \<open>Properties of the selection strategies\<close>

lemma choices_nonempty:
  assumes "population \<noteq> []" and "0 \<le> k" and "\<forall>i. 0 \<le> random i \<and> random i < 1"
  shows "\<exists>chosen. choices random population k = Inr chosen \<and> int (length chosen) = k \<and>
           set chosen \<subseteq> set population"
proof (cases "k = 0")
  case True
  then show ?thesis by (simp add: choices_def)
next
  case False
  let ?n = "length population"
  have idx: "nat \<lfloor>random i * real ?n\<rfloor> < ?n" for i
  proof -
    have n0: "0 < real ?n" using assms(1) by simp
    have r: "0 \<le> random i" "random i < 1" using assms(3) by auto
    have "random i * real ?n < real ?n" using r n0 by simp
    then have "\<lfloor>random i * real ?n\<rfloor> < int ?n" by (simp add: floor_less_iff)
    moreover have "0 \<le> \<lfloor>random i * real ?n\<rfloor>" using r n0 by simp
    ultimately show ?thesis by linarith
  qed
  have "choices random population k =
          Inr (map (\<lambda>i. population ! nat \<lfloor>random i * real ?n\<rfloor>) [0..<nat k])"
    using False assms(1,2) by (simp add: choices_def)
  moreover have "set (map (\<lambda>i. population ! nat \<lfloor>random i * real ?n\<rfloor>) [0..<nat k])
                   \<subseteq> set population"
    using idx by auto
  ultimately show ?thesis using assms(2) by simp
qed

text \<open>
  C5. On a list with at least one element and a count N (not negative), \<open>choose_rand\<close> returns
  exactly N items, each an element of the list, and the title "N random picks out of total:".
  The draws are with replacement: asking for more items than the list holds still gives N
  items, so some item is repeated.
\<close>

theorem choose_rand_sample:
  assumes "issues \<noteq> []" and "0 \<le> N" and "\<forall>i. 0 \<le> random i \<and> random i < 1"
  shows "\<exists>chosen. choose_rand random issues N =
             Inr (chosen, str_int N @ '' random picks out of '' @
                          str_int (int (length issues)) @ '':'') \<and>
           int (length chosen) = N \<and> set chosen \<subseteq> set issues \<and>
           (int (length issues) < N \<longrightarrow> \<not> distinct chosen)"
proof -
  obtain chosen where c: "choices random issues N = Inr chosen" "int (length chosen) = N"
      "set chosen \<subseteq> set issues"
    using choices_nonempty [OF assms] by blast
  have "\<not> distinct chosen" if "int (length issues) < N"
  proof
    assume "distinct chosen"
    then have "card (set chosen) = length chosen" by (rule distinct_card)
    moreover have "card (set chosen) \<le> card (set issues)" using c(3) by (simp add: card_mono)
    moreover have "card (set issues) \<le> length issues" by (rule card_length)
    ultimately show False using that c(2) by linarith
  qed
  then show ?thesis using c by (simp add: choose_rand_def)
qed

theorem choose_rand_sample_witness:
  "choose_rand (\<lambda>i. 1 / 2) [''a'', ''b'', ''c''] 2 =
     Inr ([''b'', ''b''], ''2 random picks out of 3:'') \<and>
   (\<exists>chosen. choose_rand (\<lambda>i. 1 / (real i + 2)) [''a'', ''b''] 3 =
       Inr (chosen, ''3 random picks out of 2:'') \<and> length chosen = 3 \<and> \<not> distinct chosen)"
proof -
  have r1: "\<forall>i::nat. (0::real) \<le> 1 / 2 \<and> (1::real) / 2 < 1" by simp
  have r2: "\<forall>i::nat. (0::real) \<le> 1 / (real i + 2) \<and> 1 / (real i + 2) < 1" by simp
  have s: "str_int 2 = ''2''" "str_int 3 = ''3''"
    by (simp_all add: str_int_def str_nat.simps digit_char_def)
  have a: "choices (\<lambda>i. 1 / 2) [''a'', ''b'', ''c''] 2 = Inr [''b'', ''b'']"
    by (simp add: choices_def upt_rec)
  have "\<exists>chosen. choose_rand (\<lambda>i. 1 / 2) [''a'', ''b'', ''c''] 2 =
          Inr (chosen, ''2 random picks out of 3:'') \<and> int (length chosen) = 2"
    using choose_rand_sample [of "[''a'', ''b'', ''c'']" 2 "\<lambda>i. 1 / 2"] r1 s by auto
  then have one: "choose_rand (\<lambda>i. 1 / 2) [''a'', ''b'', ''c''] 2 =
      Inr ([''b'', ''b''], ''2 random picks out of 3:'')"
    using a by (auto simp: choose_rand_def)
  have two: "\<exists>chosen. choose_rand (\<lambda>i. 1 / (real i + 2)) [''a'', ''b''] 3 =
       Inr (chosen, ''3 random picks out of 2:'') \<and> length chosen = 3 \<and> \<not> distinct chosen"
    using choose_rand_sample [of "[''a'', ''b'']" 3 "\<lambda>i. 1 / (real i + 2)"] r2 s by auto
  show ?thesis using one two by blast
qed

text \<open>
  C10. On the empty list \<open>choose_rand\<close> raises \<open>IndexError\<close> for every count of at least 1, and
  so for every count that \<open>check_number_of_issues\<close> lets through.
\<close>

theorem choose_rand_empty:
  "(1 \<le> N \<longrightarrow> choose_rand random [] N = Inl IndexError) \<and>
   choose_rand random [] (fst (check_number_of_issues n)) = Inl IndexError"
  by (simp add: choose_rand_def choices_def check_number_of_issues_def)

theorem choose_rand_empty_witness:
  "choose_rand (\<lambda>i. 1 / 2) ([] :: string list) 1 = Inl IndexError \<and>
   choose_rand (\<lambda>i. 1 / 2) ([] :: string list) (fst (check_number_of_issues 0)) = Inl IndexError"
  using choose_rand_empty [of 1 "\<lambda>i. 1 / 2" 0, where ?'a = string] by simp

text \<open>
  C6. \<open>choose_feedback\<close> returns the first N items of the list (N not negative). When the list
  holds fewer than N items it returns the whole list and the reply gets the footer that says the
  result is short; otherwise it returns exactly N items and no footer is set.
\<close>

theorem choose_feedback_prefix:
  assumes "0 \<le> N"
  shows "fst (choose_feedback issues N pull_request) = take (nat N) issues \<and>
         snd (choose_feedback issues N pull_request) =
            ''Oldest '' @ str_int N @ '' '' @ (if pull_request then ''PR(s)'' else ''issue(s)'') @
            '' in feedback queue:'' \<and>
         (int (length issues) < N \<longrightarrow>
            fst (choose_feedback issues N pull_request) = issues \<and>
            embed_footer (fill_reply (choose_feedback issues N pull_request) N) =
              Some ''There weren't enough...'') \<and>
         (N \<le> int (length issues) \<longrightarrow>
            int (length (fst (choose_feedback issues N pull_request))) = N \<and>
            embed_footer (fill_reply (choose_feedback issues N pull_request) N) = None)"
  using assms by (auto simp: choose_feedback_def slice_to_def fill_reply_def Let_def)

definition entry :: "string \<Rightarrow> summary" where
  "entry t = \<lparr>title = t, body = '''', html_url = ''https://github.com/'' @ t,
              created_at = '''', updated_at = ''''\<rparr>"

theorem choose_feedback_prefix_witness:
  "fst (choose_feedback [entry ''a'', entry ''b'', entry ''c''] 5 False) =
     [entry ''a'', entry ''b'', entry ''c''] \<and>
   embed_footer (fill_reply (choose_feedback [entry ''a'', entry ''b'', entry ''c''] 5 False) 5) =
     Some ''There weren't enough...'' \<and>
   fst (choose_feedback [entry ''a'', entry ''b'', entry ''c''] 2 True) = [entry ''a'', entry ''b''] \<and>
   embed_footer (fill_reply (choose_feedback [entry ''a'', entry ''b'', entry ''c''] 2 True) 2) = None"
  using choose_feedback_prefix [of 5 "[entry ''a'', entry ''b'', entry ''c'']" False]
        choose_feedback_prefix [of 2 "[entry ''a'', entry ''b'', entry ''c'']" True]
  by simp

section \<open>Properties of the review-pending filter\<close>

lemma yields_for_reviewers:
  "yields (for_reviewers pr rs user rest) =
     replicate (length (filter (\<lambda>r. login r = user) rs)) pr @ yields rest"
  by (induction rs) simp_all

lemma events_for_reviewers: "events (for_reviewers pr rs user rest) = events rest"
  by (induction rs) simp_all

lemma yields_pr_with_pending_review:
  "yields (pr_with_pending_review g user) =
     concat (map (\<lambda>pr. replicate (matching_entries pr user) pr) (yields g))"
  by (induction g) (simp_all add: yields_for_reviewers matching_entries_def)

lemma events_pr_with_pending_review: "events (pr_with_pending_review g user) = events g"
  by (induction g) (simp_all add: events_for_reviewers)

lemma awaits_iff_entries: "awaits user pr \<longleftrightarrow> 0 < matching_entries pr user"
  by (auto simp: awaits_def matching_entries_def filter_empty_conv image_iff)

lemma remdups_adj_replicate_append:
  "0 < k \<Longrightarrow> remdups_adj (replicate k x @ ys) = remdups_adj (x # ys)"
proof (induction k)
  case 0
  then show ?case by simp
next
  case (Suc k)
  then show ?case by (cases k) simp_all
qed

lemma remdups_adj_Cons_cong:
  "remdups_adj xs = remdups_adj ys \<Longrightarrow> remdups_adj (x # xs) = remdups_adj (x # ys)"
  by (simp add: remdups_adj_Cons)

lemma remdups_adj_repeated:
  "remdups_adj (concat (map (\<lambda>x. replicate (k x) x) xs)) =
     remdups_adj (filter (\<lambda>x. 0 < k x) xs)"
proof (induction xs)
  case Nil
  then show ?case by simp
next
  case (Cons x xs)
  show ?case
  proof (cases "0 < k x")
    case True
    have "remdups_adj (concat (map (\<lambda>x. replicate (k x) x) (x # xs))) =
            remdups_adj (replicate (k x) x @ concat (map (\<lambda>x. replicate (k x) x) xs))"
      by simp
    also have "\<dots> = remdups_adj (x # concat (map (\<lambda>x. replicate (k x) x) xs))"
      using True by (rule remdups_adj_replicate_append)
    also have "\<dots> = remdups_adj (x # filter (\<lambda>x. 0 < k x) xs)"
      using Cons.IH by (rule remdups_adj_Cons_cong)
    also have "\<dots> = remdups_adj (filter (\<lambda>x. 0 < k x) (x # xs))"
      using True by simp
    finally show ?thesis .
  next
    case False
    then show ?thesis using Cons.IH by simp
  qed
qed

lemma concat_replicate_filter:
  "\<forall>x\<in>set xs. k x \<le> Suc 0 \<Longrightarrow>
     concat (map (\<lambda>x. replicate (k x) x) xs) = filter (\<lambda>x. 0 < k x) xs"
proof (induction xs)
  case Nil
  then show ?case by simp
next
  case (Cons x xs)
  then have "k x = 0 \<or> k x = Suc 0" by auto
  then show ?case using Cons by auto
qed

text \<open>
  C4. Every item the filter yields has an entry with the identity's login among its requested
  reviewers, and the items yielded are exactly the input items with such an entry; up to
  immediate repetitions of an item the output is the input with the other items left out, in
  the input's order, and it is exactly that when no item lists the identity twice. The filter
  performs no event of its own.
\<close>

theorem pr_with_pending_review_filters:
  "(\<forall>pr \<in> set (yields (pr_with_pending_review g user)). awaits user pr) \<and>
   set (yields (pr_with_pending_review g user)) = {pr \<in> set (yields g). awaits user pr} \<and>
   remdups_adj (yields (pr_with_pending_review g user)) =
     remdups_adj (filter (awaits user) (yields g)) \<and>
   ((\<forall>pr \<in> set (yields g). matching_entries pr user \<le> 1) \<longrightarrow>
      yields (pr_with_pending_review g user) = filter (awaits user) (yields g)) \<and>
   events (pr_with_pending_review g user) = events g"
proof -
  have s: "set (yields (pr_with_pending_review g user)) = {pr \<in> set (yields g). awaits user pr}"
    by (auto simp: yields_pr_with_pending_review awaits_iff_entries)
  have r: "remdups_adj (yields (pr_with_pending_review g user)) =
             remdups_adj (filter (awaits user) (yields g))"
    by (simp add: yields_pr_with_pending_review remdups_adj_repeated awaits_iff_entries [abs_def])
  have f: "yields (pr_with_pending_review g user) = filter (awaits user) (yields g)"
    if "\<forall>pr \<in> set (yields g). matching_entries pr user \<le> 1"
    using that
    by (simp add: yields_pr_with_pending_review concat_replicate_filter
        awaits_iff_entries [abs_def])
  have a: "\<forall>pr \<in> set (yields (pr_with_pending_review g user)). awaits user pr"
    using s by blast
  have e: "events (pr_with_pending_review g user) = events g"
    by (rule events_pr_with_pending_review)
  show ?thesis
  proof (intro conjI impI)
    show "\<forall>pr \<in> set (yields (pr_with_pending_review g user)). awaits user pr" by (rule a)
    show "set (yields (pr_with_pending_review g user)) = {pr \<in> set (yields g). awaits user pr}"
      by (rule s)
    show "remdups_adj (yields (pr_with_pending_review g user)) =
            remdups_adj (filter (awaits user) (yields g))" by (rule r)
    show "yields (pr_with_pending_review g user) = filter (awaits user) (yields g)"
      if "\<forall>pr \<in> set (yields g). matching_entries pr user \<le> 1"
      using that by (rule f)
    show "events (pr_with_pending_review g user) = events g" by (rule e)
  qed
qed

definition sample_pr :: "string \<Rightarrow> string list \<Rightarrow> item" where
  "sample_pr u rs = \<lparr>title = u, body = '''', html_url = u, created_at = '''', updated_at = '''',
     pull_request_url = u, requested_reviewers = map (\<lambda>l. \<lparr>login = l\<rparr>) rs\<rparr>"

theorem pr_with_pending_review_filters_witness:
  "yields (pr_with_pending_review
      (Yield (sample_pr ''1'' [''al'', ''bob''])
        (Do (Sleep 2) (Yield (sample_pr ''2'' [''al'']) (Yield (sample_pr ''3'' [''bob'']) Stop)))) ''bob'') =
     [sample_pr ''1'' [''al'', ''bob''], sample_pr ''3'' [''bob'']] \<and>
   events (pr_with_pending_review
      (Yield (sample_pr ''1'' [''al'', ''bob''])
        (Do (Sleep 2) (Yield (sample_pr ''2'' [''al'']) (Yield (sample_pr ''3'' [''bob'']) Stop)))) ''bob'') =
     [Sleep 2]"
proof -
  let ?g = "Yield (sample_pr ''1'' [''al'', ''bob''])
        (Do (Sleep 2) (Yield (sample_pr ''2'' [''al'']) (Yield (sample_pr ''3'' [''bob'']) Stop)))"
  have once: "\<forall>p \<in> set (yields ?g). matching_entries p ''bob'' \<le> 1"
    by (simp add: matching_entries_def sample_pr_def)
  have "yields (pr_with_pending_review ?g ''bob'') = filter (awaits ''bob'') (yields ?g)"
    using pr_with_pending_review_filters [of ?g "''bob''"] once by blast
  moreover have "events (pr_with_pending_review ?g ''bob'') = events ?g"
    using pr_with_pending_review_filters [of ?g "''bob''"] by blast
  ultimately show ?thesis by (simp add: awaits_def sample_pr_def)
qed

text \<open>
  C9. The filter yields an item once for every entry of its requested reviewers that has the
  identity's login: an item with two such entries is yielded twice.
\<close>

theorem pr_with_pending_review_repeats:
  "yields (pr_with_pending_review g user) =
     concat (map (\<lambda>pr. replicate (matching_entries pr user) pr) (yields g)) \<and>
   yields (pr_with_pending_review (Yield pr Stop) user) = replicate (matching_entries pr user) pr \<and>
   (1 < matching_entries pr user \<longrightarrow>
      \<not> distinct (yields (pr_with_pending_review (Yield pr g) user)))"
proof -
  have "\<not> distinct (replicate (matching_entries pr user) pr @ ys)"
    if "1 < matching_entries pr user" for ys
  proof -
    from that have "\<exists>k. matching_entries pr user = Suc (Suc k)"
      by presburger
    then obtain k where "matching_entries pr user = Suc (Suc k)" ..
    then show ?thesis by simp
  qed
  then have d: "\<not> distinct (yields (pr_with_pending_review (Yield pr g) user))"
    if "1 < matching_entries pr user"
    using that by (simp add: yields_for_reviewers matching_entries_def)
  have one: "yields (pr_with_pending_review (Yield pr Stop) user) =
               replicate (matching_entries pr user) pr"
    by (simp add: yields_for_reviewers matching_entries_def)
  show ?thesis
  proof (intro conjI impI)
    show "yields (pr_with_pending_review g user) =
            concat (map (\<lambda>pr. replicate (matching_entries pr user) pr) (yields g))"
      by (rule yields_pr_with_pending_review)
    show "yields (pr_with_pending_review (Yield pr Stop) user) =
            replicate (matching_entries pr user) pr" by (rule one)
    show "\<not> distinct (yields (pr_with_pending_review (Yield pr g) user))"
      if "1 < matching_entries pr user" using that by (rule d)
  qed
qed

theorem pr_with_pending_review_repeats_witness:
  "matching_entries (sample_pr ''7'' [''bob'', ''al'', ''bob'']) ''bob'' = 2 \<and>
   yields (pr_with_pending_review (Yield (sample_pr ''7'' [''bob'', ''al'', ''bob'']) Stop) ''bob'') =
     [sample_pr ''7'' [''bob'', ''al'', ''bob''], sample_pr ''7'' [''bob'', ''al'', ''bob'']] \<and>
   \<not> distinct (yields (pr_with_pending_review (Yield (sample_pr ''7'' [''bob'', ''al'', ''bob'']) Stop) ''bob''))"
proof -
  have m: "matching_entries (sample_pr ''7'' [''bob'', ''al'', ''bob'']) ''bob'' = 2"
    by (simp add: matching_entries_def sample_pr_def)
  have two: "replicate 2 x = [x, x]" for x :: item
    by (simp add: numeral_2_eq_2)
  have "yields (pr_with_pending_review (Yield (sample_pr ''7'' [''bob'', ''al'', ''bob'']) Stop) ''bob'') =
          replicate (matching_entries (sample_pr ''7'' [''bob'', ''al'', ''bob'']) ''bob'')
            (sample_pr ''7'' [''bob'', ''al'', ''bob''])"
    using pr_with_pending_review_repeats [of Stop "''bob''" "sample_pr ''7'' [''bob'', ''al'', ''bob'']"]
    by blast
  then have "yields (pr_with_pending_review (Yield (sample_pr ''7'' [''bob'', ''al'', ''bob'']) Stop) ''bob'') =
          [sample_pr ''7'' [''bob'', ''al'', ''bob''], sample_pr ''7'' [''bob'', ''al'', ''bob'']]"
    by (simp only: m two)
  then show ?thesis using m by simp
qed

section \<open>Properties of the search URL\<close>

text \<open>What \<open>gh_encode\<close> makes of one byte of a label.\<close>

definition gh_char :: "char \<Rightarrow> string" where
  "gh_char c =
     (if c = CHR '' '' then ''+''
      else if c \<in> set always_safe \<or> c = CHR 0x22 then [c]
      else [CHR ''%'', hex_digit (of_char c div 16), hex_digit (of_char c mod 16)])"

lemma hex_digit_mem: "d < 16 \<Longrightarrow> hex_digit d \<in> set ''0123456789ABCDEF''"
  unfolding hex_digit_def by (rule nth_mem) simp

lemma hex_value_hex_digit: "d < 16 \<Longrightarrow> hex_value (hex_digit d) = Some d"
proof -
  have "\<forall>d \<in> set [0..<16]. hex_value (hex_digit d) = Some d"
    by code_simp
  then show "d < 16 \<Longrightarrow> hex_value (hex_digit d) = Some d" by simp
qed

lemma hi_lo: "(of_char c :: nat) div 16 < 16" "(of_char c :: nat) mod 16 < 16"
proof -
  have "(of_char c :: nat) < 256" by simp
  then show "(of_char c :: nat) div 16 < 16" by (simp add: less_mult_imp_div_less)
  show "(of_char c :: nat) mod 16 < 16" by simp
qed

lemma char_of_hi_lo: "char_of (16 * ((of_char c :: nat) div 16) + of_char c mod 16) = c"
  by simp

lemma quote_byte_space:
  "map (\<lambda>c. if c = CHR '' '' then CHR ''+'' else c) (quote_byte ([CHR 0x22] @ '' '') c) = gh_char c"
proof -
  have "hex_digit d \<noteq> CHR '' ''" if "d < 16" for d
    using hex_digit_mem [OF that] by auto
  then show ?thesis
    using hi_lo [of c] by (auto simp: quote_byte_def gh_char_def always_safe_def)
qed

lemma quote_byte_no_space:
  "c \<noteq> CHR '' '' \<Longrightarrow> quote_byte [CHR 0x22] c = gh_char c"
  by (simp add: quote_byte_def gh_char_def)

lemma gh_encode_chars: "gh_encode x = concat (map gh_char x)"
proof (cases "CHR '' '' \<in> set x")
  case True
  then show ?thesis
    using quote_byte_space
    by (simp add: gh_encode_def quote_plus_def quote_def map_concat comp_def)
next
  case False
  then have "map (quote_byte [CHR 0x22]) x = map gh_char x"
    by (intro map_cong refl quote_byte_no_space) auto
  then have "quote x [CHR 0x22] = concat (map gh_char x)"
    unfolding quote_def by (rule arg_cong)
  moreover have "gh_encode x = quote x [CHR 0x22]"
    using False by (simp add: gh_encode_def quote_plus_def)
  ultimately show ?thesis by (simp only:)
qed

lemma unquote_gh_char:
  "unquote (map (\<lambda>c. if c = CHR ''+'' then CHR '' '' else c) (gh_char c) @ rest) = c # unquote rest"
proof -
  have ne: "hex_digit d \<noteq> CHR ''+''" if "d < 16" for d
    using hex_digit_mem [OF that] by auto
  show ?thesis
  proof (cases "c = CHR '' '' \<or> c \<in> set always_safe \<or> c = CHR 0x22")
    case True
    then show ?thesis by (auto simp: gh_char_def always_safe_def)
  next
    case False
    then show ?thesis
      using hi_lo [of c] ne
      by (simp add: gh_char_def hex_value_hex_digit)
  qed
qed

lemma unquote_gh_encode:
  "unquote (map (\<lambda>c. if c = CHR ''+'' then CHR '' '' else c) (gh_encode x) @ rest) = x @ unquote rest"
  unfolding gh_encode_chars
  by (induction x) (simp_all add: unquote_gh_char)

lemma unquote_plus_gh_encode: "unquote_plus (gh_encode x) = x"
  using unquote_gh_encode [of x "[]"] by (simp add: unquote_plus_def)

lemma set_gh_char: "set (gh_char c) \<subseteq> set always_safe \<union> {CHR ''%'', CHR ''+'', CHR 0x22}"
proof -
  have "hex_digit d \<in> set always_safe" if "d < 16" for d
    using hex_digit_mem [OF that] by (auto simp: always_safe_def)
  then show ?thesis using hi_lo [of c] by (auto simp: gh_char_def)
qed

lemma set_gh_encode: "set (gh_encode x) \<subseteq> set always_safe \<union> {CHR ''%'', CHR ''+'', CHR 0x22}"
  unfolding gh_encode_chars using set_gh_char by auto

lemma unquote_plus_label_term:
  "unquote_plus (''label:'' @ [CHR 0x22] @ gh_encode x @ [CHR 0x22]) =
     ''label:'' @ [CHR 0x22] @ x @ [CHR 0x22]"
  using unquote_gh_encode [of x "[CHR 0x22]"] by (simp add: unquote_plus_def)

lemma quoted_text_label_term:
  "CHR 0x22 \<notin> set x \<Longrightarrow> quoted_text (''label:'' @ [CHR 0x22] @ x @ [CHR 0x22]) = x"
proof -
  assume "CHR 0x22 \<notin> set x"
  then have "takeWhile (\<lambda>c. c \<noteq> CHR 0x22) (x @ [CHR 0x22]) = x"
    by (induction x) auto
  then show ?thesis by (simp add: quoted_text_def)
qed

text \<open>
  C7, as the code has it. The URL is the API address, the filter terms \<open>is:kind\<close>, \<open>repo:id\<close>,
  \<open>is:state\<close> and one quoted term for every excluded and every included label, joined by \<open>+\<close>,
  then \<open>sort\<close>, \<open>order\<close>, \<open>page\<close> and \<open>per_page=100\<close>. A label is encoded with \<open>quote_plus\<close> and the
  double quote kept, byte by byte: a space becomes \<open>+\<close>, a letter, a digit, one of \<open>_.-~\<close> and
  the double quote stay, any other byte becomes \<open>%XX\<close>. The encoded label holds only letters,
  digits, \<open>_.-~\<close>, \<open>%\<close>, \<open>+\<close> and the double quote, decoding it gives the label back, and a decoded label term is the term with
  the label itself between the quotes. For a label without a double quote the text between the
  quotes of the decoded term is the label.
\<close>

theorem search_url_rendering:
  "search_url (query_url q) page =
     ''https://api.github.com/search/issues?q='' @
     join ''+''
       ([''is:'' @ (if pull_request_arg q then ''pr'' else ''issue''),
         ''repo:'' @ repository q,
         ''is:'' @ (if closed_arg q then ''closed'' else ''open'')] @
        map (\<lambda>x. ''-label:'' @ [CHR 0x22] @ gh_encode x @ [CHR 0x22]) (exclude_labels q) @
        map (\<lambda>x. ''label:'' @ [CHR 0x22] @ gh_encode x @ [CHR 0x22]) (include_labels q)) @
     ''&sort='' @ sort_arg q @
     ''&order='' @ (if ascending_order q then ''asc'' else ''desc'') @
     ''&page='' @ str_int page @ ''&per_page=100'' \<and>
   gh_encode x = concat (map gh_char x) \<and>
   set (gh_encode x) \<subseteq> set always_safe \<union> {CHR ''%'', CHR ''+'', CHR 0x22} \<and>
   unquote_plus (gh_encode x) = x \<and>
   unquote_plus (''label:'' @ [CHR 0x22] @ gh_encode x @ [CHR 0x22]) =
     ''label:'' @ [CHR 0x22] @ x @ [CHR 0x22] \<and>
   (CHR 0x22 \<notin> set x \<longrightarrow>
      quoted_text (unquote_plus (''label:'' @ [CHR 0x22] @ gh_encode x @ [CHR 0x22])) = x)"
proof (intro conjI impI)
  show "search_url (query_url q) page =
     ''https://api.github.com/search/issues?q='' @
     join ''+''
       ([''is:'' @ (if pull_request_arg q then ''pr'' else ''issue''),
         ''repo:'' @ repository q,
         ''is:'' @ (if closed_arg q then ''closed'' else ''open'')] @
        map (\<lambda>x. ''-label:'' @ [CHR 0x22] @ gh_encode x @ [CHR 0x22]) (exclude_labels q) @
        map (\<lambda>x. ''label:'' @ [CHR 0x22] @ gh_encode x @ [CHR 0x22]) (include_labels q)) @
     ''&sort='' @ sort_arg q @
     ''&order='' @ (if ascending_order q then ''asc'' else ''desc'') @
     ''&page='' @ str_int page @ ''&per_page=100''"
    by (simp add: search_url_def query_url_def Let_def)
  show "gh_encode x = concat (map gh_char x)"
    by (rule gh_encode_chars)
  show "set (gh_encode x) \<subseteq> set always_safe \<union> {CHR ''%'', CHR ''+'', CHR 0x22}"
    by (rule set_gh_encode)
  show "unquote_plus (gh_encode x) = x"
    by (rule unquote_plus_gh_encode)
  show "unquote_plus (''label:'' @ [CHR 0x22] @ gh_encode x @ [CHR 0x22]) =
          ''label:'' @ [CHR 0x22] @ x @ [CHR 0x22]"
    by (rule unquote_plus_label_term)
  show "quoted_text (unquote_plus (''label:'' @ [CHR 0x22] @ gh_encode x @ [CHR 0x22])) = x"
    if "CHR 0x22 \<notin> set x"
    by (simp only: unquote_plus_label_term quoted_text_label_term [OF that])
qed

text \<open>
  A query of the kind the command configuration holds, and two queries that differ in their
  included labels only: one label with double quotes inside, and the two labels it imitates.
\<close>

definition stale_query :: search where
  "stale_query =
     \<lparr>repository = ''PointCloudLibrary/pcl'', closed_arg = False, pull_request_arg = True,
      include_labels = [''needs: code review''], exclude_labels = [''status: stale''],
      sort_arg = ''updated'', ascending_order = True\<rparr>"

definition sly_label :: string where
  "sly_label = ''a'' @ [CHR 0x22] @ '' label:'' @ [CHR 0x22] @ ''b''"

definition sly_query :: search where
  "sly_query = stale_query\<lparr>include_labels := [sly_label]\<rparr>"

definition plain_query :: search where
  "plain_query = stale_query\<lparr>include_labels := [''a'', ''b'']\<rparr>"

theorem search_url_rendering_witness:
  "search_url (query_url stale_query) 3 =
     ''https://api.github.com/search/issues?q=is:pr+repo:PointCloudLibrary/pcl+is:open+-label:'' @
     [CHR 0x22] @ ''status%3A+stale'' @ [CHR 0x22] @ ''+label:'' @
     [CHR 0x22] @ ''needs%3A+code+review'' @ [CHR 0x22] @
     ''&sort=updated&order=asc&page=3&per_page=100'' \<and>
   quoted_text (unquote_plus (''label:'' @ [CHR 0x22] @ gh_encode ''needs: code review'' @ [CHR 0x22])) =
     ''needs: code review''"
proof -
  have e: "gh_encode ''status: stale'' = ''status%3A+stale''"
    "gh_encode ''needs: code review'' = ''needs%3A+code+review''"
    by (simp_all add: gh_encode_def quote_plus_def quote_def quote_byte_def always_safe_def
        hex_digit_def)
  have s: "str_int 3 = ''3''"
    by (simp add: str_int_def str_nat.simps digit_char_def)
  have nq: "CHR 0x22 \<notin> set ''needs: code review''" by simp
  have "search_url (query_url stale_query) 3 =
     ''https://api.github.com/search/issues?q=is:pr+repo:PointCloudLibrary/pcl+is:open+-label:'' @
     [CHR 0x22] @ ''status%3A+stale'' @ [CHR 0x22] @ ''+label:'' @
     [CHR 0x22] @ ''needs%3A+code+review'' @ [CHR 0x22] @
     ''&sort=updated&order=asc&page=3&per_page=100''"
    using search_url_rendering [of stale_query 3 "''needs: code review''", THEN conjunct1]
    by (simp add: stale_query_def e s)
  moreover have "quoted_text (unquote_plus
      (''label:'' @ [CHR 0x22] @ gh_encode ''needs: code review'' @ [CHR 0x22])) =
     ''needs: code review''"
    using search_url_rendering [of stale_query 3 "''needs: code review''"] nq by blast
  ultimately show ?thesis by (rule conjI)
qed

theorem search_url_rendering_counterexample:
  "gh_encode sly_label = ''a'' @ [CHR 0x22] @ ''+label%3A'' @ [CHR 0x22] @ ''b'' \<and>
   quoted_text (unquote_plus (''label:'' @ [CHR 0x22] @ gh_encode sly_label @ [CHR 0x22])) = ''a'' \<and>
   include_labels sly_query \<noteq> include_labels plain_query \<and>
   unquote_plus (query_url sly_query) = unquote_plus (query_url plain_query)"
proof -
  have e: "gh_encode sly_label = ''a'' @ [CHR 0x22] @ ''+label%3A'' @ [CHR 0x22] @ ''b''"
    "gh_encode ''a'' = ''a''" "gh_encode ''b'' = ''b''"
    "gh_encode ''status: stale'' = ''status%3A+stale''"
    by (simp_all add: sly_label_def gh_encode_def quote_plus_def quote_def quote_byte_def
        always_safe_def hex_digit_def)
  have colon: "char_of (58 :: nat) = CHR '':''"
    by code_simp
  have t: "quoted_text (unquote_plus (''label:'' @ [CHR 0x22] @ gh_encode sly_label @ [CHR 0x22])) = ''a''"
    by (simp add: e unquote_plus_def quoted_text_def hex_value_def colon)
  have d: "include_labels sly_query \<noteq> include_labels plain_query"
    by (simp add: sly_query_def plain_query_def)
  have u: "unquote_plus (query_url sly_query) = unquote_plus (query_url plain_query)"
    by (simp add: query_url_def sly_query_def plain_query_def stale_query_def e
        unquote_plus_def hex_value_def colon)
  show ?thesis using e(1) t d u by (intro conjI)
qed

section \<open>Properties of the review-queue scan\<close>

lemma nth_match_position_le: "nth_match_position P xs n \<le> length xs"
  by (induction xs arbitrary: n) auto

lemma nth_match_position_mono:
  "m \<le> n \<Longrightarrow> nth_match_position P xs m \<le> nth_match_position P xs n"
  by (induction xs arbitrary: m n) auto

lemma nth_match_position_short:
  "length (filter P xs) < n \<Longrightarrow> nth_match_position P xs n = length xs"
  by (induction xs arbitrary: n) auto

lemma nth_match_position_found:
  "1 \<le> n \<Longrightarrow> n \<le> length (filter P xs) \<Longrightarrow>
     0 < nth_match_position P xs n \<and>
     length (filter P (take (nth_match_position P xs n) xs)) = n \<and>
     P (xs ! (nth_match_position P xs n - 1))"
proof (induction xs arbitrary: n)
  case Nil
  then show ?case by simp
next
  case (Cons x xs)
  show ?case
  proof (cases "P x")
    case True
    show ?thesis
    proof (cases "n \<le> 1")
      case True
      with \<open>P x\<close> Cons.prems show ?thesis by simp
    next
      case False
      then have "1 \<le> n - 1" "n - 1 \<le> length (filter P xs)"
        using Cons.prems \<open>P x\<close> by auto
      from Cons.IH [OF this] False \<open>P x\<close> show ?thesis by auto
    qed
  next
    case False
    then have "n \<le> length (filter P xs)" using Cons.prems by simp
    from Cons.IH [OF Cons.prems(1) this] False show ?thesis by auto
  qed
qed

lemma collect_do_all: "collect n chosen tr (do_all evs g) = collect n chosen (tr @ evs) g"
  by (induction evs arbitrary: tr) simp_all

lemma pr_with_pending_review_do_all:
  "pr_with_pending_review (do_all evs g) user = do_all evs (pr_with_pending_review g user)"
  by (induction evs) simp_all

lemma fetches_append: "fetches (xs @ ys) = fetches xs + fetches ys"
  by (simp add: fetches_def)

lemma github_ratelimiter_with_coroutine:
  "github_ratelimiter_with Coroutine_function hdrs now =
     (Inr (fst (github_ratelimiter hdrs now)), snd (github_ratelimiter hdrs now))"
  by (simp add: github_ratelimiter_with_def github_ratelimiter_def Let_def)

lemma github_ratelimiter_with_calm:
  "\<not> truthy (fst (github_ratelimiter hdrs now)) \<Longrightarrow>
     github_ratelimiter_with error_channel hdrs now =
       (Inr (fst (github_ratelimiter hdrs now)), snd (github_ratelimiter hdrs now))"
  by (simp add: github_ratelimiter_with_def github_ratelimiter_def Let_def truthy_def
      split: if_splits)

lemma fetches_github_ratelimiter_with:
  "fetches (snd (github_ratelimiter_with error_channel hdrs now)) = 0"
  by (cases error_channel) (simp_all add: github_ratelimiter_with_def fetches_def Let_def)

lemma collect_for_reviewers:
  "int (length chosen) < n \<Longrightarrow>
     collect n chosen tr (for_reviewers pr rs user rest) =
       (if n \<le> int (length chosen) + int (length (filter (\<lambda>r. login r = user) rs))
        then (Inr (chosen @ replicate (nat (n - int (length chosen))) pr), tr)
        else collect n (chosen @ replicate (length (filter (\<lambda>r. login r = user) rs)) pr) tr rest)"
proof (induction rs arbitrary: chosen)
  case Nil
  then show ?case by simp
next
  case (Cons r rs)
  let ?m = "length (filter (\<lambda>r. login r = user) rs)"
  show ?case
  proof (cases "login r = user")
    case False
    then show ?thesis using Cons by simp
  next
    case True
    show ?thesis
    proof (cases "int (length chosen) + 1 = n")
      case True
      then have "nat (n - int (length chosen)) = Suc 0" by simp
      then show ?thesis using True \<open>login r = user\<close> by simp
    next
      case False
      then have lt: "int (length (chosen @ [pr])) < n" using Cons.prems by simp
      have need: "nat (n - int (length chosen)) = Suc (nat (n - int (length (chosen @ [pr]))))"
        using lt by simp
      have "collect n chosen tr (for_reviewers pr (r # rs) user rest) =
              collect n (chosen @ [pr]) tr (for_reviewers pr rs user rest)"
        using False \<open>login r = user\<close> by simp
      also have "\<dots> =
          (if n \<le> int (length (chosen @ [pr])) + int ?m
           then (Inr ((chosen @ [pr]) @ replicate (nat (n - int (length (chosen @ [pr])))) pr), tr)
           else collect n ((chosen @ [pr]) @ replicate ?m pr) tr rest)"
        by (rule Cons.IH [OF lt])
      also have "\<dots> =
          (if n \<le> int (length chosen) + int (Suc ?m)
           then (Inr (chosen @ replicate (nat (n - int (length chosen))) pr), tr)
           else collect n (chosen @ replicate (Suc ?m) pr) tr rest)"
        unfolding need by simp
      finally show ?thesis using \<open>login r = user\<close> by simp
    qed
  qed
qed

lemma nth_match_position_Cons_pos: "1 \<le> nth_match_position P (x # xs) n"
  by simp

lemma scan_step_response:
  assumes f: "fetch (pull_request_url issue) = Response pr hdrs"
    and gr: "github_ratelimiter_with ec hdrs (clock (c + 1)) = (r, evs)"
    and lt: "int (length chosen) < n"
  shows "collect n chosen tr
           (pr_with_pending_review (get_pr_details ec fetch clock c (issue # issues)) user) =
         (if n \<le> int (length chosen) + int (matching_entries pr user)
          then (Inr (chosen @ replicate (nat (n - int (length chosen))) pr),
                tr @ [Get (pull_request_url issue)])
          else case r of
            Inl e \<Rightarrow> (Inl e, tr @ [Get (pull_request_url issue)] @ evs)
          | Inr g \<Rightarrow>
              if truthy g
              then (Inr (chosen @ replicate (matching_entries pr user) pr),
                    tr @ [Get (pull_request_url issue)] @ evs)
              else collect n (chosen @ replicate (matching_entries pr user) pr)
                     (tr @ [Get (pull_request_url issue)] @ evs)
                     (pr_with_pending_review (get_pr_details ec fetch clock (c + 1) issues) user))"
  using f gr
  by (cases r)
    (simp_all add: collect_for_reviewers [OF lt] pr_with_pending_review_do_all collect_do_all
      matching_entries_def)

lemma scan_step_timeout:
  assumes "fetch (pull_request_url issue) = TimeoutError"
  shows "fetches (snd (collect n chosen tr
           (pr_with_pending_review (get_pr_details ec fetch clock c (issue # issues)) user))) =
         fetches tr + 1"
  using assms
  by (cases ec) (simp_all add: fetches_def)

lemma scan_fetches_le:
  "int (length chosen) < n \<Longrightarrow>
     fetches (snd (collect n chosen tr
        (pr_with_pending_review (get_pr_details ec fetch clock c issues) user)))
     \<le> fetches tr + nth_match_position (matches fetch user) issues (nat (n - int (length chosen)))"
proof (induction issues arbitrary: chosen tr c)
  case Nil
  then show ?case by simp
next
  case (Cons issue issues)
  let ?need = "nat (n - int (length chosen))"
  let ?run = "collect n chosen tr
                (pr_with_pending_review (get_pr_details ec fetch clock c (issue # issues)) user)"
  have pos: "1 \<le> nth_match_position (matches fetch user) (issue # issues) ?need"
    by (rule nth_match_position_Cons_pos)
  show ?case
  proof (cases "fetch (pull_request_url issue)")
    case TimeoutError
    then have "fetches (snd ?run) = fetches tr + 1" by (rule scan_step_timeout)
    then show ?thesis using pos by simp
  next
    case ClientError
    then show ?thesis using pos by (simp add: fetches_def)
  next
    case (Response pr hdrs)
    obtain r evs where gr: "github_ratelimiter_with ec hdrs (clock (c + 1)) = (r, evs)"
      by (cases "github_ratelimiter_with ec hdrs (clock (c + 1))")
    have evs0: "fetches evs = 0"
      using fetches_github_ratelimiter_with [of ec hdrs "clock (c + 1)"] gr by simp
    have one: "fetches (tr @ [Get (pull_request_url issue)] @ evs) = fetches tr + 1"
      using evs0 by (simp add: fetches_append) (simp add: fetches_def)
    let ?m = "matching_entries pr user"
    have step: "?run =
         (if n \<le> int (length chosen) + int (matching_entries pr user)
          then (Inr (chosen @ replicate (nat (n - int (length chosen))) pr),
                tr @ [Get (pull_request_url issue)])
          else case r of
            Inl e \<Rightarrow> (Inl e, tr @ [Get (pull_request_url issue)] @ evs)
          | Inr g \<Rightarrow>
              if truthy g
              then (Inr (chosen @ replicate (matching_entries pr user) pr),
                    tr @ [Get (pull_request_url issue)] @ evs)
              else collect n (chosen @ replicate (matching_entries pr user) pr)
                     (tr @ [Get (pull_request_url issue)] @ evs)
                     (pr_with_pending_review (get_pr_details ec fetch clock (c + 1) issues) user))"
      using Response gr Cons.prems by (rule scan_step_response)
    show ?thesis
    proof (cases "n \<le> int (length chosen) + int ?m")
      case True
      then show ?thesis using step pos by (simp add: fetches_append fetches_def)
    next
      case False
      note far = this
      show ?thesis
      proof (cases r)
        case (Inl e)
        then have "snd ?run = tr @ [Get (pull_request_url issue)] @ evs"
          using step far by simp
        then show ?thesis using one pos by simp
      next
        case (Inr g)
        show ?thesis
        proof (cases "truthy g")
          case True
          then have "snd ?run = tr @ [Get (pull_request_url issue)] @ evs"
            using step far Inr by simp
          then show ?thesis using one pos by simp
        next
          case False
          have lt': "int (length (chosen @ replicate ?m pr)) < n" using far by simp
          have need': "nat (n - int (length (chosen @ replicate ?m pr))) = ?need - ?m"
            by simp
          have "?run = collect n (chosen @ replicate ?m pr)
                     (tr @ [Get (pull_request_url issue)] @ evs)
                     (pr_with_pending_review (get_pr_details ec fetch clock (c + 1) issues) user)"
            using step far Inr False by simp
          then have "fetches (snd ?run)
                \<le> fetches (tr @ [Get (pull_request_url issue)] @ evs) +
                    nth_match_position (matches fetch user) issues (?need - ?m)"
            using Cons.IH [OF lt', of "tr @ [Get (pull_request_url issue)] @ evs" "c + 1"]
            by (simp only: need')
          also have "\<dots> = fetches tr + 1 +
                    nth_match_position (matches fetch user) issues (?need - ?m)"
            using one by simp
          also have "\<dots> \<le> fetches tr +
                        nth_match_position (matches fetch user) (issue # issues) ?need"
          proof (cases "0 < ?m")
            case True
            then have m: "matches fetch user issue"
              using Response by (simp add: matches_def awaits_iff_entries)
            have "\<not> ?need \<le> 1" using far True by linarith
            moreover have "nth_match_position (matches fetch user) issues (?need - ?m)
                           \<le> nth_match_position (matches fetch user) issues (?need - 1)"
              using True by (intro nth_match_position_mono) linarith
            ultimately show ?thesis using m by simp
          next
            case False
            then have "\<not> matches fetch user issue"
              using Response by (simp add: matches_def awaits_iff_entries)
            then show ?thesis using False by simp
          qed
          finally show ?thesis .
        qed
      qed
    qed
  qed
qed

lemma scan_fetches_eq:
  assumes ok: "\<forall>i \<in> set issues. \<exists>pr hdrs. fetch (pull_request_url i) = Response pr hdrs \<and>
                  matching_entries pr user \<le> 1 \<and>
                  (\<forall>k. \<not> truthy (fst (github_ratelimiter hdrs (clock k))))"
    and lt: "int (length chosen) < n"
  shows "fetches (snd (collect n chosen tr
           (pr_with_pending_review (get_pr_details ec fetch clock c issues) user)))
         = fetches tr + nth_match_position (matches fetch user) issues (nat (n - int (length chosen)))"
  using ok lt
proof (induction issues arbitrary: chosen tr c)
  case Nil
  then show ?case by simp
next
  case (Cons issue issues)
  let ?need = "nat (n - int (length chosen))"
  let ?run = "collect n chosen tr
                (pr_with_pending_review (get_pr_details ec fetch clock c (issue # issues)) user)"
  obtain pr hdrs where Response: "fetch (pull_request_url issue) = Response pr hdrs"
    and once: "matching_entries pr user \<le> 1"
    and calm: "\<And>k. \<not> truthy (fst (github_ratelimiter hdrs (clock k)))"
    using Cons.prems(1) by auto
  have rest: "\<forall>i \<in> set issues. \<exists>pr hdrs. fetch (pull_request_url i) = Response pr hdrs \<and>
                  matching_entries pr user \<le> 1 \<and>
                  (\<forall>k. \<not> truthy (fst (github_ratelimiter hdrs (clock k))))"
    using Cons.prems(1) by simp
  obtain g evs where gr0: "github_ratelimiter hdrs (clock (c + 1)) = (g, evs)"
    by (cases "github_ratelimiter hdrs (clock (c + 1))")
  have g: "\<not> truthy g" using calm [of "c + 1"] gr0 by simp
  have gr: "github_ratelimiter_with ec hdrs (clock (c + 1)) = (Inr g, evs)"
    using github_ratelimiter_with_calm [of hdrs "clock (c + 1)" ec] g gr0 by simp
  have evs0: "fetches evs = 0"
    using fetches_github_ratelimiter_with [of ec hdrs "clock (c + 1)"] gr by simp
  have one: "fetches (tr @ [Get (pull_request_url issue)] @ evs) = fetches tr + 1"
    using evs0 by (simp add: fetches_append) (simp add: fetches_def)
  let ?m = "matching_entries pr user"
  have mt: "matches fetch user issue \<longleftrightarrow> ?m = 1"
    using Response once by (auto simp: matches_def awaits_iff_entries)
  have step: "?run =
         (if n \<le> int (length chosen) + int (matching_entries pr user)
          then (Inr (chosen @ replicate (nat (n - int (length chosen))) pr),
                tr @ [Get (pull_request_url issue)])
          else case Inr g of
            Inl e \<Rightarrow> (Inl e, tr @ [Get (pull_request_url issue)] @ evs)
          | Inr g \<Rightarrow>
              if truthy g
              then (Inr (chosen @ replicate (matching_entries pr user) pr),
                    tr @ [Get (pull_request_url issue)] @ evs)
              else collect n (chosen @ replicate (matching_entries pr user) pr)
                     (tr @ [Get (pull_request_url issue)] @ evs)
                     (pr_with_pending_review (get_pr_details ec fetch clock (c + 1) issues) user))"
    using Response gr Cons.prems(2) by (rule scan_step_response)
  show ?case
  proof (cases "n \<le> int (length chosen) + int ?m")
    case True
    then have "?m = 1" "?need \<le> 1" using once Cons.prems(2) by linarith+
    then show ?thesis using step True mt by (simp add: fetches_append fetches_def)
  next
    case False
    have lt': "int (length (chosen @ replicate ?m pr)) < n" using False by simp
    have need': "nat (n - int (length (chosen @ replicate ?m pr))) = ?need - ?m"
      by simp
    have "?run = collect n (chosen @ replicate ?m pr)
                   (tr @ [Get (pull_request_url issue)] @ evs)
                   (pr_with_pending_review (get_pr_details ec fetch clock (c + 1) issues) user)"
      using step False g by simp
    then have "fetches (snd ?run)
          = fetches (tr @ [Get (pull_request_url issue)] @ evs) +
              nth_match_position (matches fetch user) issues (?need - ?m)"
      using Cons.IH [OF rest lt', of "tr @ [Get (pull_request_url issue)] @ evs" "c + 1"]
      by (simp only: need')
    also have "\<dots> = fetches tr + 1 +
              nth_match_position (matches fetch user) issues (?need - ?m)"
      using one by simp
    also have "\<dots> = fetches tr + nth_match_position (matches fetch user) (issue # issues) ?need"
    proof (cases "?m = 1")
      case True
      then have "\<not> ?need \<le> 1" using False by linarith
      then show ?thesis using True mt by simp
    next
      case False
      then have "?m = 0" using once by linarith
      then show ?thesis using mt by simp
    qed
    finally show ?thesis .
  qed
qed

lemma snd_choose_review:
  "given author \<Longrightarrow>
     snd (choose_review fetch clock issues N author) =
     snd (collect N [] []
            (pr_with_pending_review
               (get_pr_details Plain_function fetch clock 0 issues) (the author)))"
  by (simp add: choose_review_def Let_def split: prod.splits)

lemma choose_review_no_author:
  "\<not> given author \<Longrightarrow> 0 \<le> N \<Longrightarrow>
     choose_review fetch clock issues N author =
       (Inr (take (nat N) issues, ''Oldest '' @ str_int N @ '' PR(s) in review queue:''), [])"
  by (simp add: choose_review_def slice_to_def)

lemma scan_result_eq:
  assumes ok: "\<forall>i \<in> set issues. \<exists>pr hdrs. fetch (pull_request_url i) = Response pr hdrs \<and>
                  matching_entries pr user \<le> 1 \<and>
                  (\<forall>k. \<not> truthy (fst (github_ratelimiter hdrs (clock k))))"
    and lt: "int (length chosen) < n"
  shows "fst (collect n chosen tr
           (pr_with_pending_review (get_pr_details ec fetch clock c issues) user))
         = Inr (chosen @ take (nat (n - int (length chosen)))
                          (filter (awaits user) (details fetch issues)))"
  using ok lt
proof (induction issues arbitrary: chosen tr c)
  case Nil
  then show ?case by (simp add: details_def)
next
  case (Cons issue issues)
  let ?need = "nat (n - int (length chosen))"
  let ?run = "collect n chosen tr
                (pr_with_pending_review (get_pr_details ec fetch clock c (issue # issues)) user)"
  obtain pr hdrs where Response: "fetch (pull_request_url issue) = Response pr hdrs"
    and once: "matching_entries pr user \<le> 1"
    and calm: "\<And>k. \<not> truthy (fst (github_ratelimiter hdrs (clock k)))"
    using Cons.prems(1) by auto
  have rest: "\<forall>i \<in> set issues. \<exists>pr hdrs. fetch (pull_request_url i) = Response pr hdrs \<and>
                  matching_entries pr user \<le> 1 \<and>
                  (\<forall>k. \<not> truthy (fst (github_ratelimiter hdrs (clock k))))"
    using Cons.prems(1) by simp
  obtain g evs where gr0: "github_ratelimiter hdrs (clock (c + 1)) = (g, evs)"
    by (cases "github_ratelimiter hdrs (clock (c + 1))")
  have g: "\<not> truthy g" using calm [of "c + 1"] gr0 by simp
  have gr: "github_ratelimiter_with ec hdrs (clock (c + 1)) = (Inr g, evs)"
    using github_ratelimiter_with_calm [of hdrs "clock (c + 1)" ec] g gr0 by simp
  let ?m = "matching_entries pr user"
  have aw: "awaits user pr \<longleftrightarrow> ?m = 1"
    using once by (auto simp: awaits_iff_entries)
  have det: "details fetch (issue # issues) = pr # details fetch issues"
    using Response by (simp add: details_def)
  have step: "?run =
         (if n \<le> int (length chosen) + int (matching_entries pr user)
          then (Inr (chosen @ replicate (nat (n - int (length chosen))) pr),
                tr @ [Get (pull_request_url issue)])
          else case Inr g of
            Inl e \<Rightarrow> (Inl e, tr @ [Get (pull_request_url issue)] @ evs)
          | Inr g \<Rightarrow>
              if truthy g
              then (Inr (chosen @ replicate (matching_entries pr user) pr),
                    tr @ [Get (pull_request_url issue)] @ evs)
              else collect n (chosen @ replicate (matching_entries pr user) pr)
                     (tr @ [Get (pull_request_url issue)] @ evs)
                     (pr_with_pending_review (get_pr_details ec fetch clock (c + 1) issues) user))"
    using Response gr Cons.prems(2) by (rule scan_step_response)
  show ?case
  proof (cases "n \<le> int (length chosen) + int ?m")
    case True
    then have "?m = 1" "?need = 1" using once Cons.prems(2) by linarith+
    then show ?thesis using step True aw det by simp
  next
    case False
    have lt': "int (length (chosen @ replicate ?m pr)) < n" using False by simp
    have need': "nat (n - int (length (chosen @ replicate ?m pr))) = ?need - ?m"
      by simp
    have "?run = collect n (chosen @ replicate ?m pr)
                   (tr @ [Get (pull_request_url issue)] @ evs)
                   (pr_with_pending_review (get_pr_details ec fetch clock (c + 1) issues) user)"
      using step False g by simp
    then have "fst ?run =
        Inr ((chosen @ replicate ?m pr) @
             take (?need - ?m) (filter (awaits user) (details fetch issues)))"
      using Cons.IH [OF rest lt', of "tr @ [Get (pull_request_url issue)] @ evs" "c + 1"]
      by (simp only: need')
    also have "(chosen @ replicate ?m pr) @
                 take (?need - ?m) (filter (awaits user) (details fetch issues)) =
               chosen @ take ?need (filter (awaits user) (details fetch (issue # issues)))"
    proof (cases "?m = 1")
      case True
      then have "?need = Suc (?need - 1)" using False by linarith
      then have "take ?need (pr # filter (awaits user) (details fetch issues)) =
                   pr # take (?need - 1) (filter (awaits user) (details fetch issues))"
        by (metis take_Suc_Cons)
      then show ?thesis using True aw det by simp
    next
      case False
      then have "?m = 0" using once by linarith
      then show ?thesis using aw det by simp
    qed
    finally show ?thesis .
  qed
qed

lemma choose_review_result:
  assumes "given author"
    and "fst (collect N [] []
            (pr_with_pending_review
               (get_pr_details Plain_function fetch clock 0 issues) (the author))) = Inr chosen"
  shows "fst (choose_review fetch clock issues N author) =
           Inr (chosen, ''Oldest '' @ str_int N @ '' PR(s) for @'' @ the author @ '':'')"
proof -
  obtain t where "collect N [] []
            (pr_with_pending_review
               (get_pr_details Plain_function fetch clock 0 issues) (the author)) = (Inr chosen, t)"
    using assms(2)
    by (cases "collect N [] []
            (pr_with_pending_review
               (get_pr_details Plain_function fetch clock 0 issues) (the author))") simp
  then show ?thesis using assms(1) by (simp add: choose_review_def)
qed

text \<open>
  C3, as the code has it. With an identity and a count of at least 1, the scan never performs
  more detail fetches than the position of the N-th matching item (the length of the list when
  fewer than N items match). When every detail request is answered, the rate limit is not
  reached and no item lists the identity twice, it performs exactly that many and returns the
  first N matching details (all of them when there are fewer). Without an identity the result
  is the first N items of the list and nothing is fetched.
\<close>

theorem choose_review_scan:
  assumes "1 \<le> N"
  shows "(given author \<longrightarrow>
            fetches (snd (choose_review fetch clock issues N author)) \<le>
              nth_match_position (matches fetch (the author)) issues (nat N)) \<and>
         (given author \<and>
          (\<forall>i \<in> set issues. \<exists>pr hdrs. fetch (pull_request_url i) = Response pr hdrs \<and>
              matching_entries pr (the author) \<le> 1 \<and>
              (\<forall>k. \<not> truthy (fst (github_ratelimiter hdrs (clock k))))) \<longrightarrow>
            fetches (snd (choose_review fetch clock issues N author)) =
              nth_match_position (matches fetch (the author)) issues (nat N) \<and>
            fst (choose_review fetch clock issues N author) =
              Inr (take (nat N) (filter (awaits (the author)) (details fetch issues)),
                   ''Oldest '' @ str_int N @ '' PR(s) for @'' @ the author @ '':'')) \<and>
         (\<not> given author \<longrightarrow>
            choose_review fetch clock issues N author =
              (Inr (take (nat N) issues, ''Oldest '' @ str_int N @ '' PR(s) in review queue:''),
               []))"
proof (intro conjI impI)
  have lt: "int (length ([] :: item list)) < N" using assms by simp
  show "fetches (snd (choose_review fetch clock issues N author)) \<le>
          nth_match_position (matches fetch (the author)) issues (nat N)"
    if "given author"
    using scan_fetches_le [OF lt, of "[]" Plain_function fetch clock 0 issues "the author"] that
    by (simp add: snd_choose_review fetches_def)
  show "fetches (snd (choose_review fetch clock issues N author)) =
          nth_match_position (matches fetch (the author)) issues (nat N)"
    if "given author \<and>
          (\<forall>i \<in> set issues. \<exists>pr hdrs. fetch (pull_request_url i) = Response pr hdrs \<and>
              matching_entries pr (the author) \<le> 1 \<and>
              (\<forall>k. \<not> truthy (fst (github_ratelimiter hdrs (clock k)))))"
  proof -
    from that have ok: "\<forall>i \<in> set issues. \<exists>pr hdrs. fetch (pull_request_url i) = Response pr hdrs \<and>
              matching_entries pr (the author) \<le> 1 \<and>
              (\<forall>k. \<not> truthy (fst (github_ratelimiter hdrs (clock k))))"
      and au: "given author" by blast+
    show ?thesis
      using scan_fetches_eq [OF ok lt, of "[]" Plain_function 0] au
      by (simp add: snd_choose_review fetches_def)
  qed
  show "fst (choose_review fetch clock issues N author) =
          Inr (take (nat N) (filter (awaits (the author)) (details fetch issues)),
               ''Oldest '' @ str_int N @ '' PR(s) for @'' @ the author @ '':'')"
    if "given author \<and>
          (\<forall>i \<in> set issues. \<exists>pr hdrs. fetch (pull_request_url i) = Response pr hdrs \<and>
              matching_entries pr (the author) \<le> 1 \<and>
              (\<forall>k. \<not> truthy (fst (github_ratelimiter hdrs (clock k)))))"
  proof -
    from that have ok: "\<forall>i \<in> set issues. \<exists>pr hdrs. fetch (pull_request_url i) = Response pr hdrs \<and>
              matching_entries pr (the author) \<le> 1 \<and>
              (\<forall>k. \<not> truthy (fst (github_ratelimiter hdrs (clock k))))"
      and au: "given author" by blast+
    have "fst (collect N [] []
            (pr_with_pending_review
               (get_pr_details Plain_function fetch clock 0 issues) (the author))) =
          Inr (take (nat N) (filter (awaits (the author)) (details fetch issues)))"
      using scan_result_eq [OF ok lt, of "[]" Plain_function 0] by simp
    with au show ?thesis by (rule choose_review_result)
  qed
  show "choose_review fetch clock issues N author =
          (Inr (take (nat N) issues, ''Oldest '' @ str_int N @ '' PR(s) in review queue:''), [])"
    if "\<not> given author"
    using that assms by (intro choose_review_no_author) simp_all
qed

text \<open>
  Servers for the examples. All answer every request. The first is never near the rate limit.
  The second lists the identity twice for the first pull request. The third answers the first
  request with one call left and a reset far away.
\<close>

definition calm_fetch :: "string \<Rightarrow> item reply" where
  "calm_fetch u =
     Response (sample_pr u (if u = ''pulls/2'' then [''al''] else [''bob'', ''al'']))
       \<lparr>X_RateLimit_Remaining = 50, X_RateLimit_Reset = 900\<rparr>"

definition twice_fetch :: "string \<Rightarrow> item reply" where
  "twice_fetch u =
     Response (sample_pr u (if u = ''pulls/1'' then [''bob'', ''bob''] else [''bob'']))
       \<lparr>X_RateLimit_Remaining = 50, X_RateLimit_Reset = 900\<rparr>"

definition busy_fetch :: "string \<Rightarrow> item reply" where
  "busy_fetch u =
     Response (sample_pr u [''bob''])
       \<lparr>X_RateLimit_Remaining = (if u = ''pulls/1'' then 1 else 50), X_RateLimit_Reset = 900\<rparr>"

definition noon :: "nat \<Rightarrow> real" where
  "noon k = 400"

definition queue :: "item list" where
  "queue = [sample_pr ''pulls/1'' [], sample_pr ''pulls/2'' [], sample_pr ''pulls/3'' [],
            sample_pr ''pulls/4'' []]"

theorem choose_review_scan_witness:
  "fetches (snd (choose_review calm_fetch noon queue 2 (Some ''bob''))) = 3 \<and>
   nth_match_position (matches calm_fetch ''bob'') queue 2 = 3 \<and>
   fst (choose_review calm_fetch noon queue 2 (Some ''bob'')) =
     Inr ([sample_pr ''pulls/1'' [''bob'', ''al''], sample_pr ''pulls/3'' [''bob'', ''al'']],
          ''Oldest 2 PR(s) for @bob:'') \<and>
   fst (choose_review calm_fetch noon queue 2 None) =
     Inr ([sample_pr ''pulls/1'' [], sample_pr ''pulls/2'' []], ''Oldest 2 PR(s) in review queue:'')"
proof -
  have ok: "\<forall>i \<in> set queue. \<exists>pr hdrs. calm_fetch (pull_request_url i) = Response pr hdrs \<and>
              matching_entries pr (the (Some ''bob'')) \<le> 1 \<and>
              (\<forall>k. \<not> truthy (fst (github_ratelimiter hdrs (noon k))))"
    by (simp add: queue_def calm_fetch_def sample_pr_def matching_entries_def
        github_ratelimiter_def truthy_def)
  have pos: "nth_match_position (matches calm_fetch ''bob'') queue 2 = 3"
    by (simp add: queue_def calm_fetch_def sample_pr_def matches_def awaits_def)
  have s: "str_int 2 = ''2''"
    by (simp add: str_int_def str_nat.simps digit_char_def)
  have g: "given (Some ''bob'')" "\<not> given None" by simp_all
  have one: "(1::int) \<le> 2" by simp
  have det: "take (nat 2) (filter (awaits ''bob'') (details calm_fetch queue)) =
      [sample_pr ''pulls/1'' [''bob'', ''al''], sample_pr ''pulls/3'' [''bob'', ''al'']]"
    by (simp add: details_def queue_def calm_fetch_def sample_pr_def awaits_def)
  have both: "fetches (snd (choose_review calm_fetch noon queue 2 (Some ''bob''))) =
          nth_match_position (matches calm_fetch (the (Some ''bob''))) queue (nat 2) \<and>
        fst (choose_review calm_fetch noon queue 2 (Some ''bob'')) =
          Inr (take (nat 2) (filter (awaits (the (Some ''bob''))) (details calm_fetch queue)),
               ''Oldest '' @ str_int 2 @ '' PR(s) for @'' @ the (Some ''bob'') @ '':'')"
    by (rule choose_review_scan [OF one, of "Some ''bob''" calm_fetch noon queue,
          THEN conjunct2, THEN conjunct1, THEN mp, OF conjI [OF g(1) ok]])
  then have "fst (choose_review calm_fetch noon queue 2 (Some ''bob'')) =
     Inr ([sample_pr ''pulls/1'' [''bob'', ''al''], sample_pr ''pulls/3'' [''bob'', ''al'']],
          ''Oldest 2 PR(s) for @bob:'')"
    using det s by simp
  moreover from both
  have "fetches (snd (choose_review calm_fetch noon queue 2 (Some ''bob''))) =
          nth_match_position (matches calm_fetch ''bob'') queue 2"
    by simp
  moreover from choose_review_scan [OF one, of None calm_fetch noon queue] g(2)
  have "choose_review calm_fetch noon queue 2 None =
          (Inr (take (nat 2) queue, ''Oldest '' @ str_int 2 @ '' PR(s) in review queue:''), [])"
    by blast
  ultimately show ?thesis using pos s by (simp add: queue_def)
qed

theorem choose_review_scan_counterexample:
  "choose_review twice_fetch noon queue 2 (Some ''bob'') =
     (Inr ([sample_pr ''pulls/1'' [''bob'', ''bob''], sample_pr ''pulls/1'' [''bob'', ''bob'']],
           ''Oldest 2 PR(s) for @bob:''),
      [Get ''pulls/1'']) \<and>
   fetches (snd (choose_review twice_fetch noon queue 2 (Some ''bob''))) = 1 \<and>
   nth_match_position (matches twice_fetch ''bob'') queue 2 = 2 \<and>
   fetches (snd (choose_review twice_fetch noon queue 2 (Some ''bob''))) \<noteq>
     nth_match_position (matches twice_fetch ''bob'') queue 2"
proof -
  have s: "str_int 2 = ''2''"
    by (simp add: str_int_def str_nat.simps digit_char_def)
  have r: "choose_review twice_fetch noon queue 2 (Some ''bob'') =
     (Inr ([sample_pr ''pulls/1'' [''bob'', ''bob''], sample_pr ''pulls/1'' [''bob'', ''bob'']],
           ''Oldest 2 PR(s) for @bob:''),
      [Get ''pulls/1''])"
    by (simp add: choose_review_def queue_def twice_fetch_def noon_def sample_pr_def s)
  have a: "fetches (snd (choose_review twice_fetch noon queue 2 (Some ''bob''))) = 1"
    by (simp add: r fetches_def)
  have b: "nth_match_position (matches twice_fetch ''bob'') queue 2 = 2"
    by (simp add: queue_def twice_fetch_def sample_pr_def matches_def awaits_def)
  show ?thesis using r a b by simp
qed

text \<open>
  When the rate limiter gives up, or a detail request times out, inside the review-queue scan,
  the plain default callback is awaited and \<open>choose_review\<close> raises \<open>TypeError\<close>.
\<close>

lemma choose_review_give_up_raises:
  "choose_review busy_fetch noon queue 2 (Some ''bob'') =
     (Inl TypeError, [Get ''pulls/1'', Report ''API Request timed out'' (TryAgainAfter 501)])"
  by (simp add: choose_review_def queue_def busy_fetch_def noon_def sample_pr_def
      github_ratelimiter_with_def)

section \<open>Properties of the paged fetcher\<close>

text \<open>
  How a run that starts at page \<open>p\<close> may end: with the whole list, or at the first page from
  \<open>p\<close> on that times out or at which the rate limiter gives up, with the pages before it.
\<close>

definition ends_from ::
  "'a list \<Rightarrow> (nat \<Rightarrow> 'a page reply) \<Rightarrow> (nat \<Rightarrow> real) \<Rightarrow> nat \<Rightarrow> 'a list \<Rightarrow> ending \<Rightarrow> bool" where
  "ends_from results api clock p ys how =
     (case how of
        Received \<Rightarrow> ys = results
      | TimedOut \<Rightarrow>
          (\<exists>k. p \<le> k \<and> needed_page results k \<and> api k = TimeoutError \<and>
               (\<forall>j. p \<le> j \<and> j < k \<longrightarrow> answered_calmly api clock j) \<and>
               ys = take ((k - 1) * 100) results)
      | GaveUp \<Rightarrow>
          (\<exists>k. p \<le> k \<and> needed_page results k \<and> gives_up_at api clock k \<and>
               (\<forall>j. p \<le> j \<and> j < k \<longrightarrow> answered_calmly api clock j) \<and>
               ys = take (k * 100) results)
      | Failed \<Rightarrow> False)"

lemma ends_from_step:
  assumes "ends_from results api clock (p + 1) ys how" and "answered_calmly api clock p"
  shows "ends_from results api clock p ys how"
proof (cases how)
  case Received
  then show ?thesis using assms by (simp add: ends_from_def)
next
  case Failed
  then show ?thesis using assms by (simp add: ends_from_def)
next
  case TimedOut
  then obtain k where k: "p + 1 \<le> k" "needed_page results k" "api k = TimeoutError"
      "\<forall>j. p + 1 \<le> j \<and> j < k \<longrightarrow> answered_calmly api clock j"
      "ys = take ((k - 1) * 100) results"
    using assms(1) by (auto simp: ends_from_def)
  have "answered_calmly api clock j" if "p \<le> j" "j < k" for j
  proof (cases "j = p")
    case True
    then show ?thesis using assms(2) by simp
  next
    case False
    then have "p + 1 \<le> j" using that(1) by simp
    then show ?thesis using k(4) that(2) by blast
  qed
  then have "p \<le> k \<and> needed_page results k \<and> api k = TimeoutError \<and>
               (\<forall>j. p \<le> j \<and> j < k \<longrightarrow> answered_calmly api clock j) \<and>
               ys = take ((k - 1) * 100) results"
    using k by simp
  then show ?thesis using TimedOut unfolding ends_from_def by (simp only: ending.case) blast
next
  case GaveUp
  then obtain k where k: "p + 1 \<le> k" "needed_page results k" "gives_up_at api clock k"
      "\<forall>j. p + 1 \<le> j \<and> j < k \<longrightarrow> answered_calmly api clock j"
      "ys = take (k * 100) results"
    using assms(1) by (auto simp: ends_from_def)
  have "answered_calmly api clock j" if "p \<le> j" "j < k" for j
  proof (cases "j = p")
    case True
    then show ?thesis using assms(2) by simp
  next
    case False
    then have "p + 1 \<le> j" using that(1) by simp
    then show ?thesis using k(4) that(2) by blast
  qed
  then have "p \<le> k \<and> needed_page results k \<and> gives_up_at api clock k \<and>
               (\<forall>j. p \<le> j \<and> j < k \<longrightarrow> answered_calmly api clock j) \<and>
               ys = take (k * 100) results"
    using k by simp
  then show ?thesis using GaveUp unfolding ends_from_def by (simp only: ending.case) blast
qed

lemma get_issues_loop_serves:
  assumes "serves results api"
    and "1 \<le> p"
    and "yielded = take ((p - 1) * 100) results"
    and "data_count = int (length yielded)"
    and "p = 1 \<or> (p - 1) * 100 < length results"
  shows "\<exists>ys tr how. get_issues_loop api clock url p data_count yielded trace = Some (ys, tr, how) \<and>
           prefix ys results \<and> ends_from results api clock p ys how"
  using assms
proof (induction "length results - (p - 1) * 100" arbitrary: p yielded data_count trace
    rule: less_induct)
  case less
  note serves = \<open>serves results api\<close>
  have needed: "needed_page results p"
    using less.prems(2,5) by (simp add: needed_page_def)
  show ?case
  proof (cases "api p")
    case TimeoutError
    have "ends_from results api clock p yielded TimedOut"
      unfolding ends_from_def using TimeoutError needed less.prems(3)
      by (simp only: ending.case) (intro exI [of _ p], auto)
    then show ?thesis
      using TimeoutError less.prems(3)
      by (subst get_issues_loop.simps) (simp add: take_is_prefix)
  next
    case ClientError
    then show ?thesis using serves by (auto simp: serves_def dest: spec [of _ p])
  next
    case (Response data hdrs)
    then have tc: "total_count data = int (length results)"
      and it: "items data = take 100 (drop ((p - 1) * 100) results)"
      using serves by (auto simp: serves_def dest: spec [of _ p])
    have p100: "(p - 1) * 100 + 100 = p * 100"
      using less.prems(2) by (cases p) simp_all
    have y': "yielded @ items data = take (p * 100) results"
      using less.prems(3) it p100 by (simp add: take_add [symmetric])
    have dc': "data_count + int (length (items data)) = int (length (yielded @ items data))"
      using less.prems(4) by simp
    obtain give_up evs where gr: "github_ratelimiter hdrs (clock p) = (give_up, evs)"
      by (cases "github_ratelimiter hdrs (clock p)")
    show ?thesis
    proof (cases "truthy give_up")
      case True
      then have "gives_up_at api clock p"
        using Response gr by (simp add: gives_up_at_def)
      then have "ends_from results api clock p (take (p * 100) results) GaveUp"
        unfolding ends_from_def using needed
        by (simp only: ending.case) (intro exI [of _ p], auto)
      then show ?thesis
        using Response gr y' True by (subst get_issues_loop.simps) (simp add: take_is_prefix)
    next
      case False
      note calm = this
      then have calm_p: "answered_calmly api clock p"
        using Response gr by (simp add: answered_calmly_def)
      show ?thesis
      proof (cases "data_count + int (length (items data)) = total_count data")
        case True
        then have "length (take (p * 100) results) = length results"
          using dc' tc y' by simp
        then have "take (p * 100) results = results" by simp
        then show ?thesis
          using Response gr y' calm True
          by (subst get_issues_loop.simps) (simp add: ends_from_def)
      next
        case False
        then have "length (take (p * 100) results) \<noteq> length results"
          using dc' tc y' by simp
        then have more: "p * 100 < length results" by simp
        have smaller: "length results - (p + 1 - 1) * 100 < length results - (p - 1) * 100"
          using more p100 by simp
        have IH: "\<exists>ys tr how. get_issues_loop api clock url (p + 1)
                    (data_count + int (length (items data))) (yielded @ items data)
                    (trace @ [Get (search_url url (int p))] @ evs) = Some (ys, tr, how) \<and>
                  prefix ys results \<and> ends_from results api clock (p + 1) ys how"
          using more y' dc' by (intro less.hyps [OF smaller serves]) simp_all
        have "get_issues_loop api clock url p data_count yielded trace =
                get_issues_loop api clock url (p + 1)
                    (data_count + int (length (items data))) (yielded @ items data)
                    (trace @ [Get (search_url url (int p))] @ evs)"
          using Response gr calm False by (subst get_issues_loop.simps) simp
        then show ?thesis using IH ends_from_step [OF _ calm_p] by (simp only:) blast
      qed
    qed
  qed
qed

text \<open>
  C1. For a valid query, one whose result list the server pages out consistently, the fetcher
  ends, and what it has yielded is an initial part of the result list: never more than the
  total count the server reports. When the loop is left by its count test the whole list has
  been yielded, exactly the total count. Fewer items are yielded only when a request for a page
  it needs times out or the rate limiter gives up at such a page: the loop is then left at the
  first such page, and the items of all pages received up to there have been yielded. When no
  needed page times out and the rate limiter never gives up, the whole list is yielded.
\<close>

theorem get_issues_yields_total:
  assumes "serves results api"
  shows "\<exists>ys tr how. get_issues q api clock = Some (ys, tr, how) \<and>
           prefix ys results \<and> length ys \<le> length results \<and>
           (how = Received \<longrightarrow> ys = results) \<and>
           (length ys < length results \<longrightarrow> how = GaveUp \<or> how = TimedOut) \<and>
           (how = TimedOut \<longrightarrow>
              (\<exists>k. needed_page results k \<and> api k = TimeoutError \<and>
                   (\<forall>j. 1 \<le> j \<and> j < k \<longrightarrow> answered_calmly api clock j) \<and>
                   ys = take ((k - 1) * 100) results)) \<and>
           (how = GaveUp \<longrightarrow>
              (\<exists>k. needed_page results k \<and> gives_up_at api clock k \<and>
                   (\<forall>j. 1 \<le> j \<and> j < k \<longrightarrow> answered_calmly api clock j) \<and>
                   ys = take (k * 100) results)) \<and>
           ((\<forall>k. needed_page results k \<longrightarrow> answered_calmly api clock k) \<longrightarrow>
              how = Received \<and> ys = results)"
proof -
  obtain ys tr how where r: "get_issues_loop api clock (query_url q) 1 0 [] [] = Some (ys, tr, how)"
    and pre: "prefix ys results" and ends: "ends_from results api clock 1 ys how"
    using get_issues_loop_serves [OF assms, of 1 "[]" 0 clock "query_url q" "[]"] by auto
  have len: "length ys \<le> length results" using pre by (rule prefix_length_le)
  have all: "ys = results" if "how = Received"
    using ends that by (simp add: ends_from_def)
  have nf: "how \<noteq> Failed" using ends by (auto simp: ends_from_def)
  have short: "how = GaveUp \<or> how = TimedOut" if "length ys < length results"
    using that all nf by (cases how) auto
  have timed: "\<exists>k. needed_page results k \<and> api k = TimeoutError \<and>
                   (\<forall>j. 1 \<le> j \<and> j < k \<longrightarrow> answered_calmly api clock j) \<and>
                   ys = take ((k - 1) * 100) results" if "how = TimedOut"
    using ends that by (simp add: ends_from_def) blast
  have gave: "\<exists>k. needed_page results k \<and> gives_up_at api clock k \<and>
                   (\<forall>j. 1 \<le> j \<and> j < k \<longrightarrow> answered_calmly api clock j) \<and>
                   ys = take (k * 100) results" if "how = GaveUp"
    using ends that by (simp add: ends_from_def) blast
  have whole: "how = Received \<and> ys = results"
    if calm: "\<forall>k. needed_page results k \<longrightarrow> answered_calmly api clock k"
  proof -
    have "how \<noteq> TimedOut"
    proof
      assume "how = TimedOut"
      then obtain k where "needed_page results k" "api k = TimeoutError"
        using timed by blast
      then show False using calm by (auto simp: answered_calmly_def)
    qed
    moreover have "how \<noteq> GaveUp"
    proof
      assume "how = GaveUp"
      then obtain k where "needed_page results k" "gives_up_at api clock k"
        using gave by blast
      then show False
        using calm by (auto simp: answered_calmly_def gives_up_at_def split: reply.splits)
    qed
    ultimately have "how = Received" using nf by (cases how) auto
    then show ?thesis using all by simp
  qed
  have g: "get_issues q api clock = Some (ys, tr, how)"
    using r by (simp add: get_issues_def)
  show ?thesis
  proof (rule exI [of _ ys], rule exI [of _ tr], rule exI [of _ how], intro conjI impI)
    show "get_issues q api clock = Some (ys, tr, how)" by (rule g)
    show "prefix ys results" by (rule pre)
    show "length ys \<le> length results" by (rule len)
    show "ys = results" if "how = Received" using that by (rule all)
    show "how = GaveUp \<or> how = TimedOut" if "length ys < length results"
      using that by (rule short)
    show "\<exists>k. needed_page results k \<and> api k = TimeoutError \<and>
                   (\<forall>j. 1 \<le> j \<and> j < k \<longrightarrow> answered_calmly api clock j) \<and>
                   ys = take ((k - 1) * 100) results" if "how = TimedOut"
      using that by (rule timed)
    show "\<exists>k. needed_page results k \<and> gives_up_at api clock k \<and>
                   (\<forall>j. 1 \<le> j \<and> j < k \<longrightarrow> answered_calmly api clock j) \<and>
                   ys = take (k * 100) results" if "how = GaveUp"
      using that by (rule gave)
    show "how = Received" if "\<forall>k. needed_page results k \<longrightarrow> answered_calmly api clock k"
      using whole [OF that] by simp
    show "ys = results" if "\<forall>k. needed_page results k \<longrightarrow> answered_calmly api clock k"
      using whole [OF that] by simp
  qed
qed

text \<open>
  Two servers for the examples: one holds three results; the other holds 150 and the request
  for the second page times out.
\<close>

definition small_api :: "nat \<Rightarrow> string page reply" where
  "small_api p =
     Response \<lparr>total_count = 3, items = take 100 (drop ((p - 1) * 100) [''a'', ''b'', ''c''])\<rparr>
       \<lparr>X_RateLimit_Remaining = 50, X_RateLimit_Reset = 900\<rparr>"

definition slow_api :: "nat \<Rightarrow> string page reply" where
  "slow_api p =
     (if p = 2 then TimeoutError
      else Response \<lparr>total_count = 150,
                      items = take 100 (drop ((p - 1) * 100) (replicate 150 ''x''))\<rparr>
             \<lparr>X_RateLimit_Remaining = 50, X_RateLimit_Reset = 900\<rparr>)"

theorem get_issues_yields_total_witness:
  "serves [''a'', ''b'', ''c''] small_api \<and>
   (\<forall>k. answered_calmly small_api noon k) \<and>
   get_issues stale_query small_api noon =
     Some ([''a'', ''b'', ''c''], [Get (search_url (query_url stale_query) 1)], Received) \<and>
   serves (replicate 150 ''x'') slow_api \<and>
   needed_page (replicate 150 ''x'') 2 \<and> slow_api 2 = TimeoutError \<and>
   get_issues stale_query slow_api noon =
     Some (replicate 100 ''x'',
           [Get (search_url (query_url stale_query) 1), Get (search_url (query_url stale_query) 2),
            Report ''API Request timed out'' (Text ''Please check https://www.githubstatus.com/'')],
           TimedOut) \<and>
   prefix (replicate 100 ''x'') (replicate 150 ''x'')"
proof -
  have s1: "serves [''a'', ''b'', ''c''] small_api"
    by (simp add: serves_def small_api_def)
  have c1: "\<forall>k. answered_calmly small_api noon k"
    by (simp add: answered_calmly_def small_api_def github_ratelimiter_def truthy_def)
  have s2: "serves (replicate 150 ''x'') slow_api"
    by (simp add: serves_def slow_api_def)
  have n2: "needed_page (replicate 150 ''x'') 2" "slow_api 2 = TimeoutError"
    by (simp_all add: needed_page_def slow_api_def)
  have r1: "get_issues stale_query small_api noon =
     Some ([''a'', ''b'', ''c''], [Get (search_url (query_url stale_query) 1)], Received)"
    unfolding get_issues_def
    by (subst get_issues_loop.simps)
      (simp add: small_api_def github_ratelimiter_def truthy_def)
  have w1: "\<exists>tr. get_issues stale_query small_api noon = Some ([''a'', ''b'', ''c''], tr, Received)"
    using get_issues_yields_total [OF s1, of stale_query noon] c1 by auto
  have r2: "get_issues stale_query slow_api noon =
     Some (replicate 100 ''x'',
           [Get (search_url (query_url stale_query) 1), Get (search_url (query_url stale_query) 2),
            Report ''API Request timed out'' (Text ''Please check https://www.githubstatus.com/'')],
           TimedOut)"
    unfolding get_issues_def
    apply (subst get_issues_loop.simps)
    apply (simp add: slow_api_def github_ratelimiter_def truthy_def)
    apply (subst get_issues_loop.simps)
    apply (simp add: slow_api_def)
    done
  have "prefix (replicate 100 ''x'') (replicate 150 ''x'')"
    using get_issues_yields_total [OF s2, of stale_query noon] r2 by simp
  then show ?thesis using s1 c1 s2 n2 r1 r2 w1 by (intro conjI)
qed

end
